theory Spec2Isabelle
  imports Main
begin

section \<open>Per-value type inference\<close>

text \<open>
  The ingestion pipeline of challenge 1 exists in two versions of \<^verbatim>\<open>challenge.ts\<close>:
  the one under \<^verbatim>\<open>src/challenge-1\<close> and the one with the table check
  (\<^verbatim>\<open>checkAndVerifyTables\<close>). Both share \<^verbatim>\<open>inferType\<close> and
  \<^verbatim>\<open>inferColumnTypes\<close> word for word.

  \<^verbatim>\<open>type InferredType = 'int' | 'bigint' | 'float' | 'date' | 'string'\<close>
\<close>

datatype InferredType = T_int | T_bigint | T_float | T_date | T_string

text \<open>The character class \<^verbatim>\<open>\d\<close> of a JavaScript regular expression: the ten ASCII digits.\<close>

definition is_digit :: "char \<Rightarrow> bool" where
  "is_digit c = (c \<in> set ''0123456789'')"

definition digit_value :: "char \<Rightarrow> int" where
  "digit_value c = of_char c - 48"

text \<open>\<^verbatim>\<open>/^\d+$/.test(value)\<close>: one or more digits and nothing else.\<close>

definition matches_digits :: "string \<Rightarrow> bool" where
  "matches_digits value = (value \<noteq> [] \<and> list_all is_digit value)"

text \<open>
  \<^verbatim>\<open>/^\d+\.\d+$/.test(value)\<close>: digits, a dot, digits. The first group has to take every
  leading digit, since the character after it must be the dot.
\<close>

definition matches_decimal :: "string \<Rightarrow> bool" where
  "matches_decimal value =
     (let whole = takeWhile is_digit value; rest = dropWhile is_digit value
      in whole \<noteq> [] \<and>
         (case rest of
            [] \<Rightarrow> False
          | c # fraction \<Rightarrow> c = CHR ''.'' \<and> fraction \<noteq> [] \<and> list_all is_digit fraction))"

text \<open>
  \<^verbatim>\<open>parseInt(value, 10)\<close> on a string of digits. The result is a double; rounding to a
  double is monotone and both bounds of the comparison in \<^verbatim>\<open>inferType\<close> are doubles, so
  the comparison has the same answer on the exact value, which is what is kept here.
\<close>

definition parseInt10 :: "string \<Rightarrow> int" where
  "parseInt10 value = foldl (\<lambda>n c. 10 * n + digit_value c) 0 value"

subsection \<open>Date.parse\<close>

text \<open>
  \<^verbatim>\<open>Date.parse\<close> is a built-in of the runtime. ECMAScript fixes its result on the Date
  Time String Format and leaves every other string to the engine. The date-only forms
  \<^verbatim>\<open>YYYY\<close>, \<^verbatim>\<open>YYYY-MM\<close> and \<^verbatim>\<open>YYYY-MM-DD\<close> of a real calendar date are
  computed here (they are read as UTC); what the engine answers on any other string is
  the parameter \<open>engine\<close>. \<open>None\<close> is \<^verbatim>\<open>NaN\<close>, \<open>Some ms\<close> a time value in
  milliseconds since the epoch.
\<close>

definition DayFromYear :: "int \<Rightarrow> int" where
  "DayFromYear y =
     365 * (y - 1970) + (y - 1969) div 4 - (y - 1901) div 100 + (y - 1601) div 400"

definition InLeapYear :: "int \<Rightarrow> bool" where
  "InLeapYear y = (y mod 4 = 0 \<and> (y mod 100 \<noteq> 0 \<or> y mod 400 = 0))"

definition month_lengths :: "int \<Rightarrow> int list" where
  "month_lengths y =
     [31, if InLeapYear y then 29 else 28, 31, 30, 31, 30, 31, 31, 30, 31, 30, 31]"

definition MakeDay :: "int \<Rightarrow> int \<Rightarrow> int \<Rightarrow> int option" where
  "MakeDay y m d =
     (if 1 \<le> m \<and> m \<le> 12 \<and> 1 \<le> d \<and> d \<le> month_lengths y ! nat (m - 1)
      then Some (DayFromYear y + sum_list (take (nat (m - 1)) (month_lengths y)) + d - 1)
      else None)"

definition msPerDay :: int where
  "msPerDay = 86400000"

definition iso_date_only :: "string \<Rightarrow> int option" where
  "iso_date_only s =
     (let dash = (\<lambda>i. s ! i = CHR ''-''); num = (\<lambda>i n. take n (drop i s));
          day =
            (if length s = 4 \<and> list_all is_digit s
               then MakeDay (parseInt10 s) 1 1
             else if length s = 7 \<and> list_all is_digit (num 0 4) \<and> dash 4 \<and>
                     list_all is_digit (num 5 2)
               then MakeDay (parseInt10 (num 0 4)) (parseInt10 (num 5 2)) 1
             else if length s = 10 \<and> list_all is_digit (num 0 4) \<and> dash 4 \<and>
                     list_all is_digit (num 5 2) \<and> dash 7 \<and> list_all is_digit (num 8 2)
               then MakeDay (parseInt10 (num 0 4)) (parseInt10 (num 5 2)) (parseInt10 (num 8 2))
             else None)
      in map_option (\<lambda>d. d * msPerDay) day)"

definition Date_parse :: "(string \<Rightarrow> int option) \<Rightarrow> string \<Rightarrow> int option" where
  "Date_parse engine s =
     (case iso_date_only s of Some ms \<Rightarrow> Some ms | None \<Rightarrow> engine s)"

text \<open>An engine that recognises nothing outside the date-only forms.\<close>

definition strict_engine :: "string \<Rightarrow> int option" where
  "strict_engine s = None"

text \<open>
  \<^verbatim>\<open>if (Date.parse(value))\<close> tests the number for truthiness: \<^verbatim>\<open>NaN\<close> and \<^verbatim>\<open>0\<close> are
  falsy, every other number is truthy.
\<close>

definition truthy :: "int option \<Rightarrow> bool" where
  "truthy v = (case v of None \<Rightarrow> False | Some n \<Rightarrow> n \<noteq> 0)"

subsection \<open>inferType\<close>

definition inferType :: "(string \<Rightarrow> int option) \<Rightarrow> string \<Rightarrow> InferredType" where
  "inferType engine value =
     (if matches_digits value then
        (let intValue = parseInt10 value
         in if intValue \<ge> - 2147483648 \<and> intValue \<le> 2147483647 then T_int else T_bigint)
      else if matches_decimal value then T_float
      else if truthy (Date_parse engine value) then T_date
      else T_string)"

section \<open>Column types from a sample\<close>

text \<open>
  A parsed data line, as \<^verbatim>\<open>csv.parse({ headers: true })\<close> hands it to a \<^verbatim>\<open>'data'\<close>
  listener: an object with one string per header, kept here as the list of its
  header/value pairs in header order. (\<^verbatim>\<open>Object.keys\<close> lists keys that look like array
  indices first; nothing below depends on the order of the keys.)
\<close>

type_synonym row = "(string \<times> string) list"

definition Object_keys :: "row \<Rightarrow> string list" where
  "Object_keys r = map fst r"

text \<open>\<^verbatim>\<open>row[header]\<close>; \<open>None\<close> is \<^verbatim>\<open>undefined\<close>.\<close>

definition row_get :: "row \<Rightarrow> string \<Rightarrow> string option" where
  "row_get r header = map_of r header"

text \<open>
  \<^verbatim>\<open>inferType\<close> hands its argument to \<^verbatim>\<open>RegExp.test\<close> and \<^verbatim>\<open>Date.parse\<close>, which
  both convert it to a string first.
\<close>

definition ToString :: "string option \<Rightarrow> string" where
  "ToString v = (case v of None \<Rightarrow> ''undefined'' | Some s \<Rightarrow> s)"

text \<open>
  A JavaScript \<^verbatim>\<open>Set\<close> iterates in insertion order and ignores the insertion of an
  element it already has. \<^verbatim>\<open>new Set(xs)\<close> inserts the elements of \<open>xs\<close> from left to
  right; \<^verbatim>\<open>Array.from(set)[0]\<close> is the first element, \<^verbatim>\<open>undefined\<close> for the empty set.
\<close>

definition Set_add :: "'a \<Rightarrow> 'a list \<Rightarrow> 'a list" where
  "Set_add x s = (if x \<in> set s then s else s @ [x])"

definition new_Set :: "'a list \<Rightarrow> 'a list" where
  "new_Set xs = foldl (\<lambda>s x. Set_add x s) [] xs"

definition element_0 :: "'a list \<Rightarrow> 'a option" where
  "element_0 xs = (case xs of [] \<Rightarrow> None | x # _ \<Rightarrow> Some x)"

text \<open>\<^verbatim>\<open>obj[key] = value\<close> on an object whose keys keep their insertion order.\<close>

fun assign :: "string \<Rightarrow> 'v \<Rightarrow> (string \<times> 'v) list \<Rightarrow> (string \<times> 'v) list" where
  "assign k v [] = [(k, v)]"
| "assign k v ((k', v') # kvs) =
     (if k = k' then (k, v) # kvs else (k', v') # assign k v kvs)"

text \<open>
  \<^verbatim>\<open>Record<string, InferredType>\<close>; a slot holds \<open>None\<close> when the assigned value was
  \<^verbatim>\<open>undefined\<close>.
\<close>

type_synonym schema = "(string \<times> InferredType option) list"

datatype error =
    TypeError
  | ParseError
  | RequestError
  | ResponseError
  | WriteError
  | ReadError
  | ZlibError
  | TarError
  | AssertionError string
  | TableExists string
  | DuplicateColumn string
  | NoSuchTable string
  | InsertRejected
  | Error error

text \<open>
  The way an asynchronous function ends: its promise is fulfilled, its promise is
  rejected, or an exception is thrown from the event loop: it leaves one of the stream
  listeners, or it is the \<^verbatim>\<open>'error'\<close> event of a stream that has no listener for it. Such
  an exception is not caught by the promise (the executor has returned long before), so
  the promise stays pending, no \<^verbatim>\<open>catch\<close> block of the program sees the exception, and
  it surfaces in the event loop.
\<close>

datatype 'a outcome = Fulfilled 'a | Rejected error | Uncaught error

text \<open>
  What the parser stream of a file emits: one \<^verbatim>\<open>'data'\<close> event per data row, then
  \<^verbatim>\<open>'end'\<close>, or \<^verbatim>\<open>'error'\<close> in place of \<^verbatim>\<open>'end'\<close> when \<open>parse_fails\<close>.
\<close>

record csv_file =
  data_rows :: "row list"
  parse_fails :: bool

text \<open>The \<^verbatim>\<open>'data'\<close> listener of \<^verbatim>\<open>inferColumnTypes\<close>.\<close>

definition sample_on_data :: "nat \<Rightarrow> row list \<Rightarrow> row \<Rightarrow> row list" where
  "sample_on_data sampleSize sampleRows r =
     (if length sampleRows < sampleSize then sampleRows @ [r] else sampleRows)"

definition infer_header :: "(string \<Rightarrow> int option) \<Rightarrow> row list \<Rightarrow> string \<Rightarrow> InferredType option" where
  "infer_header engine sampleRows header =
     (let sampleValues = map (\<lambda>r. row_get r header) sampleRows;
          types = new_Set (map (\<lambda>v. inferType engine (ToString v)) sampleValues)
      in element_0 types)"

text \<open>
  The \<^verbatim>\<open>'end'\<close> listener. \<^verbatim>\<open>Object.keys(sampleRows[0])\<close> throws a \<^verbatim>\<open>TypeError\<close> when
  there is no first sample row.
\<close>

fun sample_on_end :: "(string \<Rightarrow> int option) \<Rightarrow> row list \<Rightarrow> schema outcome" where
  "sample_on_end engine [] = Uncaught TypeError"
| "sample_on_end engine (r0 # rs) =
     Fulfilled (foldl (\<lambda>inferredTypes header.
                         assign header (infer_header engine (r0 # rs) header) inferredTypes)
                  [] (Object_keys r0))"

definition inferColumnTypes :: "(string \<Rightarrow> int option) \<Rightarrow> csv_file \<Rightarrow> nat \<Rightarrow> schema outcome" where
  "inferColumnTypes engine file sampleSize =
     (let sampleRows = foldl (sample_on_data sampleSize) [] (data_rows file)
      in if parse_fails file then Rejected ParseError else sample_on_end engine sampleRows)"

section \<open>The destination store\<close>

text \<open>
  The SQLite database behind knex: its tables with their rows, and the statements that
  were issued to it. Only what the pipeline reads back (table existence, row counts) and
  writes (table creation, batch inserts inside one transaction) is kept.
\<close>

datatype column_type =
  col_increments | col_integer | col_bigInteger | col_float | col_dateTime | col_string

record table =
  columns :: "(string \<times> column_type) list"
  contents :: "row list"

datatype statement = CreateTable string | BatchInsert string "row list"

record store =
  tables :: "string \<rightharpoonup> table"
  issued_statements :: "statement list"

text \<open>The \<^verbatim>\<open>switch\<close> of \<^verbatim>\<open>setupDatabase\<close>; its \<^verbatim>\<open>default\<close> shares the \<^verbatim>\<open>'string'\<close> case.\<close>

fun storage_type :: "InferredType option \<Rightarrow> column_type" where
  "storage_type (Some T_int) = col_integer"
| "storage_type (Some T_bigint) = col_bigInteger"
| "storage_type (Some T_float) = col_float"
| "storage_type (Some T_date) = col_dateTime"
| "storage_type _ = col_string"

text \<open>
  SQLite compares column names without regard to the case of the ASCII letters, and
  refuses a \<^verbatim>\<open>CREATE TABLE\<close> in which a column has the name of an earlier one.
\<close>

definition lower :: "char \<Rightarrow> char" where
  "lower c =
     (case map_of (zip ''ABCDEFGHIJKLMNOPQRSTUVWXYZ'' ''abcdefghijklmnopqrstuvwxyz'') c of
        None \<Rightarrow> c
      | Some d \<Rightarrow> d)"

fun duplicate_column :: "string list \<Rightarrow> string list \<Rightarrow> string option" where
  "duplicate_column seen [] = None"
| "duplicate_column seen (name # names) =
     (if map lower name \<in> set (map (map lower) seen) then Some name
      else duplicate_column (seen @ [name]) names)"

text \<open>
  \<^verbatim>\<open>setupDatabase\<close>: \<^verbatim>\<open>table.increments('id').primary()\<close>, then one column per header.
  \<^verbatim>\<open>db.schema.createTable\<close> fails when the table is there already, and when two of the
  columns have the same name, which a header \<^verbatim>\<open>id\<close> brings about.
\<close>

definition setupDatabase :: "schema \<Rightarrow> string \<Rightarrow> store \<Rightarrow> unit outcome \<times> store" where
  "setupDatabase inferredTypes tableName s =
     (let s' = s\<lparr>issued_statements := issued_statements s @ [CreateTable tableName]\<rparr>;
          cols = (''id'', col_increments) #
                 map (\<lambda>(header, type). (header, storage_type type)) inferredTypes
      in case tables s tableName of
           Some _ \<Rightarrow> (Rejected (TableExists tableName), s')
         | None \<Rightarrow>
             (case duplicate_column [] (map fst cols) of
                Some name \<Rightarrow> (Rejected (DuplicateColumn name), s')
              | None \<Rightarrow>
                  (Fulfilled (),
                   s'\<lparr>tables := (tables s)(tableName \<mapsto> \<lparr>columns = cols, contents = []\<rparr>)\<rparr>)))"

definition checkTableExistence :: "store \<Rightarrow> string \<Rightarrow> bool" where
  "checkTableExistence s tableName = (tables s tableName \<noteq> None)"

definition countRowsInTable :: "store \<Rightarrow> string \<Rightarrow> nat outcome" where
  "countRowsInTable s tableName =
     (case tables s tableName of
        None \<Rightarrow> Rejected (NoSuchTable tableName)
      | Some t \<Rightarrow> Fulfilled (length (contents t)))"

definition countRowsInCSV :: "csv_file \<Rightarrow> nat outcome" where
  "countRowsInCSV file =
     (let rowCount = foldl (\<lambda>n r. n + 1) 0 (data_rows file)
      in if parse_fails file then Rejected ParseError else Fulfilled rowCount)"

section \<open>Download, extraction and the surroundings of a run\<close>

text \<open>
  What can happen to the download. \<^verbatim>\<open>downloadFile\<close> awaits the request inside
  \<^verbatim>\<open>try\<close>, pipes the response into the file and returns a promise that the writer
  settles: \<^verbatim>\<open>'finish'\<close> resolves it, \<^verbatim>\<open>'error'\<close> rejects it. A request that fails is
  thrown again by the \<^verbatim>\<open>catch\<close> block. The response stream gets no \<^verbatim>\<open>'error'\<close>
  listener (\<^verbatim>\<open>pipe\<close> puts one on its destination only), so a response that breaks off
  is thrown from the event loop and the writer never finishes.
\<close>

datatype transfer = transfer_completes | request_fails | response_breaks | writer_fails

definition downloadFile :: "transfer \<Rightarrow> unit outcome" where
  "downloadFile t =
     (case t of
        transfer_completes \<Rightarrow> Fulfilled ()
      | request_fails \<Rightarrow> Rejected RequestError
      | response_breaks \<Rightarrow> Uncaught ResponseError
      | writer_fails \<Rightarrow> Rejected WriteError)"

text \<open>
  What can be wrong with the archive. \<^verbatim>\<open>decompressAndExtract\<close> pipes the file through
  \<^verbatim>\<open>zlib.createGunzip()\<close> into \<^verbatim>\<open>tar.extract\<close>. It has \<^verbatim>\<open>readStream.on('error', reject)\<close>
  and \<^verbatim>\<open>writeStream.on('error', reject)\<close>, and \<^verbatim>\<open>writeStream.on('finish', resolve)\<close>; the gunzip
  stream in the middle has no \<^verbatim>\<open>'error'\<close> listener, so data that is not gzip is thrown
  from the event loop and the promise is never settled.
\<close>

datatype archive = archive_intact | archive_unreadable | gzip_corrupt | tar_corrupt

definition decompressAndExtract :: "archive \<Rightarrow> unit outcome" where
  "decompressAndExtract a =
     (case a of
        archive_intact \<Rightarrow> Fulfilled ()
      | archive_unreadable \<Rightarrow> Rejected ReadError
      | gzip_corrupt \<Rightarrow> Uncaught ZlibError
      | tar_corrupt \<Rightarrow> Rejected TarError)"

text \<open>
  What a run finds outside the program: how the download goes, the archive, the files,
  the engine, and two things that are up to the store. Whether it accepts a batch is
  \<open>accepts\<close>, given the table name, the rows the table holds inside the transaction,
  and the batch. How far it has got with the inserts it was handed when the stream of a
  file emits its next event is \<open>inserts_done_before\<close>: given the path of the file and
  the number \<open>i\<close> of the event, the number of inserts in flight that are carried out
  before that event (the data rows count from \<open>0\<close>, and the end of the stream comes
  after the last of them).
\<close>

record env =
  network :: transfer
  dump :: archive
  files :: "string \<Rightarrow> csv_file"
  date_engine :: "string \<Rightarrow> int option"
  accepts :: "string \<Rightarrow> row list \<Rightarrow> row list \<Rightarrow> bool"
  inserts_done_before :: "string \<Rightarrow> nat \<Rightarrow> nat"

section \<open>The idempotency check\<close>

definition customers_csv :: string where
  "customers_csv = ''./tmp/extracted/dump/customers.csv''"

definition organizations_csv :: string where
  "organizations_csv = ''./tmp/extracted/dump/organizations.csv''"

text \<open>
  \<^verbatim>\<open>await\<close> on a promise inside an asynchronous function: go on with the value, or
  end the same way the awaited promise did.
\<close>

definition await :: "'a outcome \<Rightarrow> ('a \<Rightarrow> 'b outcome) \<Rightarrow> 'b outcome" where
  "await p k = (case p of Fulfilled v \<Rightarrow> k v | Rejected e \<Rightarrow> Rejected e | Uncaught e \<Rightarrow> Uncaught e)"

text \<open>\<^verbatim>\<open>assert(condition, message)\<close> throws an \<^verbatim>\<open>AssertionError\<close> when the condition is false.\<close>

definition assert :: "bool \<Rightarrow> string \<Rightarrow> 'a outcome \<Rightarrow> 'a outcome" where
  "assert condition message rest = (if condition then rest else Rejected (AssertionError message))"

text \<open>
  \<^verbatim>\<open>checkAndVerifyTables\<close>. The four counts of its
  \<^verbatim>\<open>Promise.all\<close> are taken in the order of the array. It writes nothing.
\<close>

definition checkAndVerifyTables :: "env \<Rightarrow> store \<Rightarrow> bool outcome" where
  "checkAndVerifyTables e s =
     (let doesCustomersTableExist = checkTableExistence s ''customers'';
          doesOrganizationsTableExist = checkTableExistence s ''organizations''
      in if doesCustomersTableExist \<and> doesOrganizationsTableExist then
           await (countRowsInTable s ''customers'') (\<lambda>dbCustomerCount.
           await (countRowsInCSV (files e customers_csv)) (\<lambda>csvCustomerCount.
           await (countRowsInTable s ''organizations'') (\<lambda>dbOrganizationCount.
           await (countRowsInCSV (files e organizations_csv)) (\<lambda>csvOrganizationCount.
             assert (dbCustomerCount \<noteq> csvCustomerCount)
               ''customer count in db != customer count in csv''
            (assert (dbOrganizationCount \<noteq> csvOrganizationCount)
               ''organization count in db != organization count in csv''
            (Fulfilled True))))))
         else Fulfilled False)"

section \<open>The batch loader\<close>

text \<open>
  The promise that \<^verbatim>\<open>processCSV\<close> hands to \<^verbatim>\<open>db.transaction\<close>: the first call of
  \<^verbatim>\<open>resolve\<close> or \<^verbatim>\<open>reject\<close> settles it, later calls do nothing.
\<close>

datatype promise_state = Pending | Resolved | Failed error

definition resolve :: "promise_state \<Rightarrow> promise_state" where
  "resolve p = (case p of Pending \<Rightarrow> Resolved | _ \<Rightarrow> p)"

definition reject :: "error \<Rightarrow> promise_state \<Rightarrow> promise_state" where
  "reject err p = (case p of Pending \<Rightarrow> Failed err | _ \<Rightarrow> p)"

text \<open>
  The state of one load: the array \<^verbatim>\<open>rows\<close>, the tables as the open transaction sees
  them, the promise, and every batch handed to \<^verbatim>\<open>trx.batchInsert\<close> with the store's
  verdict on it.
\<close>

record loader =
  rows :: "row list"
  trx :: "string \<rightharpoonup> table"
  promise :: promise_state
  batches :: "(row list \<times> bool) list"

text \<open>
  \<^verbatim>\<open>rows.push(row)\<close>, then \<^verbatim>\<open>rows.splice(0, batchSize)\<close> when the array has reached the
  batch size: the rows left in the array, and the batch taken out of it if any. This part
  of the \<^verbatim>\<open>'data'\<close> listener runs without interruption in both versions.
\<close>

definition push_row :: "nat \<Rightarrow> row list \<Rightarrow> row \<Rightarrow> row list \<times> row list option" where
  "push_row batchSize rs r =
     (let rs' = rs @ [r]
      in if length rs' \<ge> batchSize then (drop batchSize rs', Some (take batchSize rs'))
         else (rs', None))"

text \<open>
  \<^verbatim>\<open>trx.batchInsert(tableName, batch, batchSize).catch(reject)\<close>, from the moment the
  insert is carried out: an accepted batch is appended to the table inside the
  transaction, a refused one leaves it as it was and calls \<^verbatim>\<open>reject\<close>. A batch never
  exceeds the chunk size it is given with, so it is one insert. \<^verbatim>\<open>db.transaction\<close>
  commits or rolls back as soon as the promise of its body is settled, and from then on
  knex refuses every query on the transaction; the \<^verbatim>\<open>reject\<close> that follows such a
  refusal finds the promise settled and does nothing.
\<close>

definition batchInsert :: "(string \<Rightarrow> row list \<Rightarrow> row list \<Rightarrow> bool) \<Rightarrow> string \<Rightarrow> row list \<Rightarrow> loader \<Rightarrow> loader" where
  "batchInsert acc tableName batch l =
     (if promise l \<noteq> Pending then l\<lparr>batches := batches l @ [(batch, False)]\<rparr>
      else
        case trx l tableName of
          None \<Rightarrow> l\<lparr>promise := reject (NoSuchTable tableName) (promise l),
                    batches := batches l @ [(batch, False)]\<rparr>
        | Some t \<Rightarrow>
            if acc tableName (contents t) batch
            then l\<lparr>trx := (trx l)(tableName \<mapsto> t\<lparr>contents := contents t @ batch\<rparr>),
                   batches := batches l @ [(batch, True)]\<rparr>
            else l\<lparr>promise := reject InsertRejected (promise l),
                   batches := batches l @ [(batch, False)]\<rparr>)"

text \<open>
  The \<^verbatim>\<open>'data'\<close> listener when the insert it awaits is carried out at once: the row
  is pushed, and a full batch goes out.
\<close>

definition load_on_data :: "nat \<Rightarrow> (string \<Rightarrow> row list \<Rightarrow> row list \<Rightarrow> bool) \<Rightarrow> string \<Rightarrow> loader \<Rightarrow> row \<Rightarrow> loader" where
  "load_on_data batchSize acc tableName l r =
     (case push_row batchSize (rows l) r of
        (rs, None) \<Rightarrow> l\<lparr>rows := rs\<rparr>
      | (rs, Some batch) \<Rightarrow> batchInsert acc tableName batch (l\<lparr>rows := rs\<rparr>))"

text \<open>
  The \<^verbatim>\<open>'end'\<close> listener when the insert it awaits is carried out at once: the rest
  of the array goes out as a last batch, then \<^verbatim>\<open>resolve()\<close>.
\<close>

definition load_on_end :: "(string \<Rightarrow> row list \<Rightarrow> row list \<Rightarrow> bool) \<Rightarrow> string \<Rightarrow> loader \<Rightarrow> loader" where
  "load_on_end acc tableName l =
     (let l' = (if rows l \<noteq> [] then batchInsert acc tableName (rows l) l else l)
      in l'\<lparr>promise := resolve (promise l')\<rparr>)"

text \<open>
  \<^verbatim>\<open>db.transaction\<close> commits when the promise of its body is fulfilled and rolls back
  when it is rejected: the tables it leaves behind, given the tables it started from.
\<close>

definition transaction_result :: "(string \<rightharpoonup> table) \<Rightarrow> loader \<Rightarrow> (string \<rightharpoonup> table)" where
  "transaction_result tbls l = (case promise l of Resolved \<Rightarrow> trx l | _ \<Rightarrow> tbls)"

text \<open>
  The body of the transaction over a whole file in the one order of events in which the
  store carries out every insert at once, before the stream emits anything more: the
  listeners run one after the other, each to its end with the insert it awaits.
\<close>

definition load :: "nat \<Rightarrow> (string \<Rightarrow> row list \<Rightarrow> row list \<Rightarrow> bool) \<Rightarrow> string \<Rightarrow> (string \<rightharpoonup> table) \<Rightarrow> csv_file \<Rightarrow> loader" where
  "load batchSize acc tableName tbls file =
     (let l0 = \<lparr>rows = [], trx = tbls, promise = Pending, batches = []\<rparr>;
          l1 = foldl (load_on_data batchSize acc tableName) l0 (data_rows file)
      in if parse_fails file then l1\<lparr>promise := reject ParseError (promise l1)\<rparr>
         else load_on_end acc tableName l1)"

text \<open>
  What holds of such a load after the rows \<open>seen\<close> have gone through the \<^verbatim>\<open>'data'\<close>
  listener, for a table \<open>t0\<close> that was there when the transaction began: the batches
  and the array together are the rows seen, the array is below the batch size, every
  batch so far is full, the promise is not yet resolved, it is pending exactly when no
  insert was refused, and as long as it is pending the transaction holds the table with
  every batch appended.
\<close>

definition loading :: "nat \<Rightarrow> string \<Rightarrow> (string \<rightharpoonup> table) \<Rightarrow> table \<Rightarrow> row list \<Rightarrow> loader \<Rightarrow> bool" where
  "loading batchSize tableName tbls t0 seen l =
     (concat (map fst (batches l)) @ rows l = seen \<and>
      length (rows l) < batchSize \<and>
      (\<forall>p \<in> set (batches l). length (fst p) = batchSize) \<and>
      promise l \<noteq> Resolved \<and>
      (promise l = Pending \<longleftrightarrow> (\<forall>p \<in> set (batches l). snd p)) \<and>
      (promise l = Pending \<longrightarrow>
         trx l = tbls(tableName \<mapsto> t0\<lparr>contents := contents t0 @ concat (map fst (batches l))\<rparr>)))"

section \<open>Parsing and inserting as events\<close>

text \<open>
  A stream does not wait for the promise that an \<^verbatim>\<open>async\<close> listener returns, so the
  listeners of \<^verbatim>\<open>processCSV\<close> do not run one after the other: each is cut at its
  \<^verbatim>\<open>await\<close>, and what follows the \<^verbatim>\<open>await\<close> runs when the store is done with the
  insert. The two versions differ in their \<^verbatim>\<open>'data'\<close> listener. Under
  \<^verbatim>\<open>src/challenge-1\<close> it calls \<^verbatim>\<open>stream.pause()\<close> before the insert it awaits and
  \<^verbatim>\<open>stream.resume()\<close> after it; the version with the table check awaits the insert
  with the stream flowing.

  A \<open>Data\<close> or \<open>End\<close> event runs a listener up to the insert it issues; \<open>InsertDone\<close>
  carries out the oldest insert in flight (inserts on one transaction are carried out in
  the order they were issued) and runs what follows the \<^verbatim>\<open>await\<close>:
  \<^verbatim>\<open>stream.resume()\<close> where the listener has it, \<^verbatim>\<open>resolve()\<close> for the insert of the
  \<^verbatim>\<open>'end'\<close> listener. A paused stream emits no \<^verbatim>\<open>'data'\<close>. It does emit \<^verbatim>\<open>'end'\<close>:
  a readable stream schedules its \<^verbatim>\<open>'end'\<close> when it reads the last chunk, before the
  \<^verbatim>\<open>'data'\<close> listener has seen that chunk, and \<^verbatim>\<open>pause()\<close> does not take the
  \<^verbatim>\<open>'end'\<close> back. Nothing is emitted after \<^verbatim>\<open>'end'\<close>. \<open>step\<close> is \<open>None\<close> on an
  event that cannot occur.
\<close>

datatype version = challenge_1 | table_check_version

datatype event = Data row | InsertDone | End

text \<open>
  The load, the state of the stream, and the batches whose insert was issued and is not
  yet carried out, oldest first; \<open>True\<close> marks the insert of the \<^verbatim>\<open>'end'\<close> listener.
\<close>

record feed =
  ld :: loader
  paused :: bool
  ended :: bool
  in_flight :: "(row list \<times> bool) list"

definition feed_start :: "(string \<rightharpoonup> table) \<Rightarrow> feed" where
  "feed_start tbls =
     \<lparr>ld = \<lparr>rows = [], trx = tbls, promise = Pending, batches = []\<rparr>,
      paused = False, ended = False, in_flight = []\<rparr>"

definition pauses :: "version \<Rightarrow> bool" where
  "pauses v = (v = challenge_1)"

definition step :: "version \<Rightarrow> nat \<Rightarrow> (string \<Rightarrow> row list \<Rightarrow> row list \<Rightarrow> bool) \<Rightarrow> string \<Rightarrow> feed \<Rightarrow> event \<Rightarrow> feed option" where
  "step v batchSize acc tableName f ev =
     (case ev of
        Data r \<Rightarrow>
          if paused f \<or> ended f then None
          else (case push_row batchSize (rows (ld f)) r of
                  (rs, None) \<Rightarrow> Some (f\<lparr>ld := (ld f)\<lparr>rows := rs\<rparr>\<rparr>)
                | (rs, Some batch) \<Rightarrow>
                    Some (f\<lparr>ld := (ld f)\<lparr>rows := rs\<rparr>,
                            paused := pauses v,
                            in_flight := in_flight f @ [(batch, False)]\<rparr>))
      | InsertDone \<Rightarrow>
          (case in_flight f of
             [] \<Rightarrow> None
           | (batch, of_end) # rest \<Rightarrow>
               (let l = batchInsert acc tableName batch (ld f)
                in if of_end
                   then Some (f\<lparr>ld := l\<lparr>promise := resolve (promise l)\<rparr>, in_flight := rest\<rparr>)
                   else Some (f\<lparr>ld := l, in_flight := rest,
                                paused := (if pauses v then False else paused f)\<rparr>)))
      | End \<Rightarrow>
          if ended f then None
          else if rows (ld f) \<noteq> []
          then Some (f\<lparr>ended := True, in_flight := in_flight f @ [(rows (ld f), True)]\<rparr>)
          else Some (f\<lparr>ended := True, ld := (ld f)\<lparr>promise := resolve (promise (ld f))\<rparr>\<rparr>))"

fun run :: "version \<Rightarrow> nat \<Rightarrow> (string \<Rightarrow> row list \<Rightarrow> row list \<Rightarrow> bool) \<Rightarrow> string \<Rightarrow> feed \<Rightarrow> event list \<Rightarrow> feed option" where
  "run v batchSize acc tableName f [] = Some f"
| "run v batchSize acc tableName f (ev # evs) =
     (case step v batchSize acc tableName f ev of
        None \<Rightarrow> None
      | Some f' \<Rightarrow> run v batchSize acc tableName f' evs)"

text \<open>
  What is left of a run to do when no further event of the stream comes: the inserts in
  flight, one after the other.
\<close>

fun drain :: "(string \<Rightarrow> row list \<Rightarrow> row list \<Rightarrow> bool) \<Rightarrow> string \<Rightarrow> (row list \<times> bool) list \<Rightarrow> loader \<Rightarrow> loader" where
  "drain acc tableName [] l = l"
| "drain acc tableName ((batch, of_end) # rest) l =
     (let l' = batchInsert acc tableName batch l
      in drain acc tableName rest (if of_end then l'\<lparr>promise := resolve (promise l')\<rparr> else l'))"

text \<open>
  What a run shows from outside: how its promise stands, the size and the fate of each
  batch whose insert was carried out, the number of inserts still in flight, and the row
  count of the table once the transaction is over.
\<close>

definition observe :: "(string \<rightharpoonup> table) \<Rightarrow> string \<Rightarrow> feed option \<Rightarrow> (promise_state \<times> (nat \<times> bool) list \<times> nat \<times> nat option) option" where
  "observe tbls tableName r =
     map_option
       (\<lambda>f. (promise (ld f),
             map (\<lambda>(batch, ok). (length batch, ok)) (batches (ld f)),
             length (in_flight f),
             map_option (\<lambda>t. length (contents t)) (transaction_result tbls (ld f) tableName)))
       r"

text \<open>
  What holds between events under \<^verbatim>\<open>src/challenge-1\<close>: at most one insert is in flight,
  while one is the stream is paused or has ended, and a paused stream has left nothing
  in the array \<^verbatim>\<open>rows\<close>.
\<close>

definition backpressure :: "feed \<Rightarrow> bool" where
  "backpressure f =
     (length (in_flight f) \<le> 1 \<and> (in_flight f \<noteq> [] \<longrightarrow> paused f \<or> ended f) \<and>
      (paused f \<longrightarrow> rows (ld f) = []))"

text \<open>
  The batches handed to \<^verbatim>\<open>trx.batchInsert\<close> so far, carried out or not, in the order
  in which they were issued.
\<close>

definition issued :: "feed \<Rightarrow> row list list" where
  "issued f = map fst (batches (ld f)) @ map fst (in_flight f)"

text \<open>
  What holds while the rows of a file are being read, in either version and in every
  order of events: the stream has not ended, it is paused only in the version that
  pauses and only with an insert in flight, and no insert in flight is that of the
  \<^verbatim>\<open>'end'\<close> listener.
\<close>

definition reading :: "version \<Rightarrow> feed \<Rightarrow> bool" where
  "reading v f =
     (\<not> ended f \<and> (paused f \<longrightarrow> pauses v \<and> in_flight f \<noteq> []) \<and>
      (\<forall>p \<in> set (in_flight f). \<not> snd p))"

text \<open>
  What holds between the rows of a file, in either version, when the store carries out
  every insert before the stream emits its next event: the stream has not ended, and
  nothing is in flight but the insert that the last row has issued, if it has.
\<close>

definition keeping_up :: "version \<Rightarrow> feed \<Rightarrow> bool" where
  "keeping_up v f =
     (\<not> ended f \<and>
      (case in_flight f of
         [] \<Rightarrow> \<not> paused f
       | [(batch, of_end)] \<Rightarrow> \<not> of_end \<and> paused f = pauses v
       | _ \<Rightarrow> False))"

section \<open>The load of a file\<close>

text \<open>
  The events of a load come in the order of the file, with the store's progress in
  between. \<open>carry_out\<close> lets the store finish up to \<open>k\<close> of the inserts in flight.
  \<open>deliver\<close> is the next event of the stream: first the store finishes what the
  surroundings say it has finished by then; a row that finds the stream paused waits for
  \<^verbatim>\<open>stream.resume()\<close>, which the listener calls once its insert is done; the end of
  the stream waits for nothing.
\<close>

fun carry_out :: "version \<Rightarrow> nat \<Rightarrow> (string \<Rightarrow> row list \<Rightarrow> row list \<Rightarrow> bool) \<Rightarrow> string \<Rightarrow> nat \<Rightarrow> feed \<Rightarrow> feed" where
  "carry_out v batchSize acc tableName 0 f = f"
| "carry_out v batchSize acc tableName (Suc k) f =
     (case step v batchSize acc tableName f InsertDone of
        None \<Rightarrow> f
      | Some f' \<Rightarrow> carry_out v batchSize acc tableName k f')"

definition deliver :: "version \<Rightarrow> nat \<Rightarrow> (string \<Rightarrow> row list \<Rightarrow> row list \<Rightarrow> bool) \<Rightarrow> string \<Rightarrow> nat \<Rightarrow> feed \<Rightarrow> event \<Rightarrow> feed" where
  "deliver v batchSize acc tableName k f ev =
     (let f1 = carry_out v batchSize acc tableName k f;
          f2 = (if paused f1 \<and> ev \<noteq> End
                then carry_out v batchSize acc tableName (length (in_flight f1)) f1
                else f1)
      in case step v batchSize acc tableName f2 ev of None \<Rightarrow> f2 | Some f' \<Rightarrow> f')"

fun emit_rows :: "version \<Rightarrow> nat \<Rightarrow> (string \<Rightarrow> row list \<Rightarrow> row list \<Rightarrow> bool) \<Rightarrow> string \<Rightarrow> (nat \<Rightarrow> nat) \<Rightarrow> nat \<Rightarrow> feed \<Rightarrow> row list \<Rightarrow> feed" where
  "emit_rows v batchSize acc tableName progress i f [] = f"
| "emit_rows v batchSize acc tableName progress i f (r # rs) =
     emit_rows v batchSize acc tableName progress (Suc i)
       (deliver v batchSize acc tableName (progress i) f (Data r)) rs"

text \<open>
  The body of the transaction over a whole file: its rows, then \<^verbatim>\<open>'end'\<close>, or
  \<^verbatim>\<open>'error'\<close> with its listener \<^verbatim>\<open>reject\<close> in place of \<^verbatim>\<open>'end'\<close>; the inserts that
  are still in flight then are carried out afterwards.
\<close>

definition load_stream :: "version \<Rightarrow> nat \<Rightarrow> (string \<Rightarrow> row list \<Rightarrow> row list \<Rightarrow> bool) \<Rightarrow> string \<Rightarrow> (nat \<Rightarrow> nat) \<Rightarrow> (string \<rightharpoonup> table) \<Rightarrow> csv_file \<Rightarrow> loader" where
  "load_stream v batchSize acc tableName progress tbls file =
     (let n = length (data_rows file);
          f1 = emit_rows v batchSize acc tableName progress 0 (feed_start tbls) (data_rows file);
          f2 = (if parse_fails file
                then (let f' = carry_out v batchSize acc tableName (progress n) f1
                      in f'\<lparr>ld := (ld f')\<lparr>promise := reject ParseError (promise (ld f'))\<rparr>,
                            ended := True\<rparr>)
                else deliver v batchSize acc tableName (progress n) f1 End)
      in ld (carry_out v batchSize acc tableName (length (in_flight f2)) f2))"

text \<open>
  \<^verbatim>\<open>processCSV\<close> wraps the transaction in \<^verbatim>\<open>try\<close>/\<^verbatim>\<open>catch\<close>; the \<^verbatim>\<open>catch\<close> block
  prints the error and returns, so the promise of \<^verbatim>\<open>processCSV\<close> is always fulfilled
  and the function is a plain state transformer. An insert that is carried out after the
  transaction is over is refused and changes nothing.
\<close>

definition processCSV_with :: "version \<Rightarrow> nat \<Rightarrow> env \<Rightarrow> store \<Rightarrow> string \<Rightarrow> string \<Rightarrow> store" where
  "processCSV_with v batchSize e s filePath tableName =
     (let l = load_stream v batchSize (accepts e) tableName (inserts_done_before e filePath)
                (tables s) (files e filePath)
      in \<lparr>tables = transaction_result (tables s) l,
          issued_statements =
            issued_statements s @ map (\<lambda>(batch, ok). BatchInsert tableName batch) (batches l)\<rparr>)"

text \<open>
  \<^verbatim>\<open>const batchSize: number = 10\<close> and no pause in the version with the table check,
  \<^verbatim>\<open>90\<close> and the pause under \<^verbatim>\<open>src/challenge-1\<close>.
\<close>

definition processCSV :: "env \<Rightarrow> store \<Rightarrow> string \<Rightarrow> string \<Rightarrow> store" where
  "processCSV = processCSV_with table_check_version 10"

definition processCSV_challenge_1 :: "env \<Rightarrow> store \<Rightarrow> string \<Rightarrow> string \<Rightarrow> store" where
  "processCSV_challenge_1 = processCSV_with challenge_1 90"

section \<open>The entry point\<close>

text \<open>
  The \<^verbatim>\<open>try\<close> block of \<^verbatim>\<open>processDataDump\<close> in the version with the table check.
  Creating the directory, opening and closing the connection are taken to succeed. Both
  members of a \<^verbatim>\<open>Promise.all\<close> run whatever the other does, and they are taken in the
  order of the array. The two loads are awaited one after the other.
\<close>

definition processDataDump_try :: "env \<Rightarrow> store \<Rightarrow> unit outcome \<times> store" where
  "processDataDump_try e s =
     (case downloadFile (network e) of
        Rejected x \<Rightarrow> (Rejected x, s)
      | Uncaught x \<Rightarrow> (Uncaught x, s)
      | Fulfilled _ \<Rightarrow>
     (case decompressAndExtract (dump e) of
        Rejected x \<Rightarrow> (Rejected x, s)
      | Uncaught x \<Rightarrow> (Uncaught x, s)
      | Fulfilled _ \<Rightarrow>
     (case inferColumnTypes (date_engine e) (files e customers_csv) 10 of
        Rejected x \<Rightarrow> (Rejected x, s)
      | Uncaught x \<Rightarrow> (Uncaught x, s)
      | Fulfilled customerInferredTypes \<Rightarrow>
     (case inferColumnTypes (date_engine e) (files e organizations_csv) 10 of
        Rejected x \<Rightarrow> (Rejected x, s)
      | Uncaught x \<Rightarrow> (Uncaught x, s)
      | Fulfilled organizationInferredTypes \<Rightarrow>
     (case checkAndVerifyTables e s of
        Rejected x \<Rightarrow> (Rejected x, s)
      | Uncaught x \<Rightarrow> (Uncaught x, s)
      | Fulfilled True \<Rightarrow> (Fulfilled (), s)
      | Fulfilled False \<Rightarrow>
          (let (r1, s1) = setupDatabase customerInferredTypes ''customers'' s;
               (r2, s2) = setupDatabase organizationInferredTypes ''organizations'' s1
           in case r1 of
                Rejected x \<Rightarrow> (Rejected x, s2)
              | Uncaught x \<Rightarrow> (Uncaught x, s2)
              | Fulfilled _ \<Rightarrow>
             (case r2 of
                Rejected x \<Rightarrow> (Rejected x, s2)
              | Uncaught x \<Rightarrow> (Uncaught x, s2)
              | Fulfilled _ \<Rightarrow>
                  (let s3 = processCSV e s2 customers_csv ''customers'';
                       s4 = processCSV e s3 organizations_csv ''organizations''
                   in (Fulfilled (), s4)))))))))"

text \<open>\<^verbatim>\<open>catch (err) { throw Error(`An error occurred: ${err}`) }\<close>\<close>

definition processDataDump :: "env \<Rightarrow> store \<Rightarrow> unit outcome \<times> store" where
  "processDataDump e s =
     (case processDataDump_try e s of
        (Rejected err, s') \<Rightarrow> (Rejected (Error err), s')
      | r \<Rightarrow> r)"

section \<open>Sample inputs\<close>

definition sample_file :: "nat \<Rightarrow> csv_file" where
  "sample_file n = \<lparr>data_rows = replicate n [(''name'', ''Ada'')], parse_fails = False\<rparr>"

text \<open>
  Two ways the store can go about its inserts: none is carried out before the stream has
  ended, which is how a file goes that is read faster than the first insert takes, and
  each is carried out before the stream emits its next event.
\<close>

definition after_the_stream :: "string \<Rightarrow> nat \<Rightarrow> nat" where
  "after_the_stream path i = 0"


text \<open>One insert is carried out before event \<open>j\<close>, none before any other event.\<close>

definition one_before_event :: "nat \<Rightarrow> string \<Rightarrow> nat \<Rightarrow> nat" where
  "one_before_event j path i = (if i = j then 1 else 0)"

definition sample_env :: "nat \<Rightarrow> (string \<Rightarrow> row list \<Rightarrow> row list \<Rightarrow> bool) \<Rightarrow> env" where
  "sample_env n acc =
     \<lparr>network = transfer_completes, dump = archive_intact, files = (\<lambda>path. sample_file n),
      date_engine = strict_engine, accepts = acc, inserts_done_before = after_the_stream\<rparr>"

definition sample_table :: "nat \<Rightarrow> table" where
  "sample_table n =
     \<lparr>columns = [(''id'', col_increments), (''name'', col_string)],
      contents = replicate n [(''name'', ''Ada'')]\<rparr>"

definition sample_store :: "nat \<Rightarrow> store" where
  "sample_store n =
     \<lparr>tables = [''customers'' \<mapsto> sample_table n, ''organizations'' \<mapsto> sample_table n],
      issued_statements = []\<rparr>"


definition accept_all :: "string \<Rightarrow> row list \<Rightarrow> row list \<Rightarrow> bool" where
  "accept_all tableName held batch = True"

text \<open>A store that takes rows up to a capacity and refuses the batch that would exceed it.\<close>

definition accept_up_to :: "nat \<Rightarrow> string \<Rightarrow> row list \<Rightarrow> row list \<Rightarrow> bool" where
  "accept_up_to capacity tableName held batch = (length held + length batch \<le> capacity)"


section \<open>Properties of the per-value classifier\<close>

lemma iso_2024_01_01: "iso_date_only ''2024-01-01'' = Some 1704067200000"
  by (simp add: iso_date_only_def is_digit_def parseInt10_def digit_value_def MakeDay_def
      month_lengths_def DayFromYear_def InLeapYear_def msPerDay_def)

lemma iso_1970_01_01: "iso_date_only ''1970-01-01'' = Some 0"
  by (simp add: iso_date_only_def is_digit_def parseInt10_def digit_value_def MakeDay_def
      month_lengths_def DayFromYear_def InLeapYear_def msPerDay_def)

lemma iso_1970: "iso_date_only ''1970'' = Some 0"
  by (simp add: iso_date_only_def is_digit_def parseInt10_def digit_value_def MakeDay_def
      month_lengths_def DayFromYear_def InLeapYear_def msPerDay_def)

lemma iso_abc123: "iso_date_only ''abc123'' = None"
  by (simp add: iso_date_only_def is_digit_def)

lemma inferType_int32_max: "inferType engine ''2147483647'' = T_int"
  by (simp add: inferType_def matches_digits_def is_digit_def parseInt10_def digit_value_def)

lemma inferType_int32_max_plus_1: "inferType engine ''2147483648'' = T_bigint"
  by (simp add: inferType_def matches_digits_def is_digit_def parseInt10_def digit_value_def)

lemma inferType_decimal: "inferType engine ''3.14'' = T_float"
  by (simp add: inferType_def matches_digits_def matches_decimal_def is_digit_def)

lemma inferType_iso_date: "inferType engine ''2024-01-01'' = T_date"
  by (simp add: inferType_def matches_digits_def matches_decimal_def is_digit_def
      Date_parse_def iso_2024_01_01 truthy_def)

lemma inferType_word:
  "engine ''abc123'' = None \<Longrightarrow> inferType engine ''abc123'' = T_string"
  by (simp add: inferType_def matches_digits_def matches_decimal_def is_digit_def
      Date_parse_def iso_abc123 truthy_def)

text \<open>
  C7. \<^verbatim>\<open>inferType\<close> at the boundary inputs: \<^verbatim>\<open>"2147483647"\<close> is \<^verbatim>\<open>'int'\<close> (32-bit),
  \<^verbatim>\<open>"2147483648"\<close> is \<^verbatim>\<open>'bigint'\<close> (64-bit), \<^verbatim>\<open>"3.14"\<close> is \<^verbatim>\<open>'float'\<close>,
  \<^verbatim>\<open>"2024-01-01"\<close> is \<^verbatim>\<open>'date'\<close> (timestamp) and \<^verbatim>\<open>"abc123"\<close> is \<^verbatim>\<open>'string'\<close>.
  The first four hold on every engine. \<^verbatim>\<open>"abc123"\<close> is outside the Date Time String
  Format, so the last one is stated for the engines that answer \<^verbatim>\<open>NaN\<close> on it, as V8
  does: its legacy parser refuses a number that follows an unknown word without a
  separator.
\<close>

theorem inferType_boundaries:
  assumes "engine ''abc123'' = None"
  shows "inferType engine ''2147483647'' = T_int \<and>
         inferType engine ''2147483648'' = T_bigint \<and>
         inferType engine ''3.14'' = T_float \<and>
         inferType engine ''2024-01-01'' = T_date \<and>
         inferType engine ''abc123'' = T_string"
  using assms
  by (simp only: inferType_int32_max inferType_int32_max_plus_1 inferType_decimal
      inferType_iso_date inferType_word simp_thms)

theorem inferType_boundaries_witness:
  "strict_engine ''abc123'' = None \<and>
   inferType strict_engine ''2147483647'' = T_int \<and>
   inferType strict_engine ''2147483648'' = T_bigint \<and>
   inferType strict_engine ''3.14'' = T_float \<and>
   inferType strict_engine ''2024-01-01'' = T_date \<and>
   inferType strict_engine ''abc123'' = T_string"
proof -
  have h: "strict_engine ''abc123'' = None"
    by (simp add: strict_engine_def)
  from inferType_boundaries [of strict_engine, OF h] h show ?thesis
    by simp
qed

text \<open>
  C10, as stated, fails: \<^verbatim>\<open>"1970"\<close> is a date-only form, \<^verbatim>\<open>Date.parse("1970")\<close> is
  \<^verbatim>\<open>0\<close>, and \<^verbatim>\<open>inferType\<close> never reaches its date branch on it, because the string
  is all digits.
\<close>

theorem inferType_year_1970_counterexample:
  "Date_parse strict_engine ''1970'' = Some 0 \<and>
   inferType strict_engine ''1970'' = T_int \<and>
   inferType strict_engine ''1970'' \<noteq> T_string"
  by (simp add: Date_parse_def iso_1970 inferType_def matches_digits_def is_digit_def
      parseInt10_def digit_value_def)

text \<open>
  C10, amended. For every input string that matches neither numeric pattern and whose
  date parse is the epoch instant (\<^verbatim>\<open>0\<close>), such as \<^verbatim>\<open>"1970-01-01"\<close>, \<^verbatim>\<open>inferType\<close>
  answers \<^verbatim>\<open>'string'\<close> and not \<^verbatim>\<open>'date'\<close>: the date branch tests the number for
  truthiness.
\<close>

theorem inferType_epoch_is_string:
  assumes "\<not> matches_digits value" and "\<not> matches_decimal value"
    and "Date_parse engine value = Some 0"
  shows "inferType engine value = T_string"
  using assms by (simp add: inferType_def truthy_def)

theorem inferType_epoch_is_string_witness:
  "\<not> matches_digits ''1970-01-01'' \<and> \<not> matches_decimal ''1970-01-01'' \<and>
   Date_parse strict_engine ''1970-01-01'' = Some 0 \<and>
   inferType strict_engine ''1970-01-01'' = T_string"
proof -
  have d: "\<not> matches_digits ''1970-01-01''"
    by (simp add: matches_digits_def is_digit_def)
  have f: "\<not> matches_decimal ''1970-01-01''"
    by (simp add: matches_decimal_def is_digit_def)
  have p: "Date_parse strict_engine ''1970-01-01'' = Some 0"
    by (simp add: Date_parse_def iso_1970_01_01)
  from inferType_epoch_is_string [of "''1970-01-01''" strict_engine, OF d f p] d f p show ?thesis
    by simp
qed

section \<open>Properties of the column inference\<close>

lemma sample_on_data_take:
  "foldl (sample_on_data n) acc rs = acc @ take (n - length acc) rs"
proof (induction rs arbitrary: acc)
  case Nil
  show ?case by simp
next
  case (Cons r rs)
  show ?case
  proof (cases "length acc < n")
    case True
    then have step: "sample_on_data n acc r = acc @ [r]"
      by (simp add: sample_on_data_def)
    from True have "n - length acc = Suc (n - Suc (length acc))" by simp
    then show ?thesis
      by (simp add: Cons.IH step)
  next
    case False
    then have step: "sample_on_data n acc r = acc"
      by (simp add: sample_on_data_def)
    from False show ?thesis
      by (simp add: Cons.IH step)
  qed
qed

lemma Set_keeps_first:
  "element_0 (foldl (\<lambda>s x. Set_add x s) (a # s) xs) = Some a"
proof (induction xs arbitrary: s)
  case Nil
  show ?case by (simp add: element_0_def)
next
  case (Cons x xs)
  have "Set_add x (a # s) = a # s \<or> Set_add x (a # s) = a # (s @ [x])"
    by (simp add: Set_add_def)
  then show ?case
    using Cons.IH by auto
qed

lemma new_Set_first: "element_0 (new_Set (x # xs)) = Some x"
proof -
  have "Set_add x [] = [x]"
    by (simp add: Set_add_def)
  then show ?thesis
    by (simp add: new_Set_def Set_keeps_first)
qed

lemma map_of_assign: "map_of (assign k v kvs) = (map_of kvs)(k \<mapsto> v)"
  by (induction kvs) auto

lemma map_of_assign_all:
  "map_of (foldl (\<lambda>m h. assign h (f h) m) m0 hs) h =
     (if h \<in> set hs then Some (f h) else map_of m0 h)"
  by (induction hs arbitrary: m0) (auto simp: map_of_assign)

lemma infer_header_first:
  "infer_header engine (r0 # rs) header = Some (inferType engine (ToString (row_get r0 header)))"
  by (simp add: infer_header_def new_Set_first)

lemma inferColumnTypes_no_rows:
  "data_rows src = [] \<Longrightarrow> \<not> parse_fails src \<Longrightarrow>
   inferColumnTypes engine src sampleSize = Uncaught TypeError"
  by (simp add: inferColumnTypes_def)

text \<open>
  C5. \<^verbatim>\<open>inferColumnTypes\<close> promises \<^emph>\<open>a promise that resolves with a record of inferred
  column types\<close> and hands parse errors to \<^verbatim>\<open>reject\<close>, but its \<^verbatim>\<open>'end'\<close> listener
  reads \<^verbatim>\<open>sampleRows[0]\<close> without looking whether there is one. On a file with a
  header row and no data row, \<^verbatim>\<open>Object.keys(undefined)\<close> throws a \<^verbatim>\<open>TypeError\<close>
  inside the listener: the promise is neither resolved nor rejected, the caller gets no
  error of any kind, let alone one that names the file, and the exception is thrown from
  the event loop.
\<close>

theorem inferColumnTypes_header_only_throws:
  "data_rows (sample_file 0) = [] \<and>
   inferColumnTypes strict_engine (sample_file 0) 10 = Uncaught TypeError \<and>
   inferColumnTypes strict_engine (sample_file 0) 10 \<noteq> Rejected err"
  by (simp add: inferColumnTypes_def sample_file_def)

text \<open>
  C6. For every column and every non-empty sample, the inferred type of the column is
  the first element, in insertion order, of the set of classifications of the sampled
  values, and that is the classification of the value in the first sampled row; the
  later rows have no say.
\<close>

theorem inferColumnTypes_first_row_decides:
  assumes "0 < sampleSize" and "data_rows file = r0 # rs" and "\<not> parse_fails file"
    and "header \<in> set (Object_keys r0)"
  shows "\<exists>inferredTypes.
           inferColumnTypes engine file sampleSize = Fulfilled inferredTypes \<and>
           map_of inferredTypes header =
             Some (element_0 (new_Set (map (\<lambda>r. inferType engine (ToString (row_get r header)))
                                         (take sampleSize (r0 # rs))))) \<and>
           map_of inferredTypes header =
             Some (Some (inferType engine (ToString (row_get r0 header))))"
proof -
  from assms(1) obtain k where k: "sampleSize = Suc k"
    by (cases sampleSize) auto
  define sampleRows where "sampleRows = foldl (sample_on_data sampleSize) [] (data_rows file)"
  have "sampleRows = take sampleSize (data_rows file)"
    unfolding sampleRows_def using sample_on_data_take [of sampleSize "[]" "data_rows file"]
    by simp
  then have sample: "sampleRows = r0 # take k rs" and sample': "take sampleSize (r0 # rs) = sampleRows"
    by (simp_all add: assms(2) k)
  define inferredTypes where
    "inferredTypes = foldl (\<lambda>m h. assign h (infer_header engine sampleRows h) m) [] (Object_keys r0)"
  have run: "inferColumnTypes engine file sampleSize = Fulfilled inferredTypes"
    using assms(3)
    by (simp add: inferColumnTypes_def sampleRows_def [symmetric] inferredTypes_def sample)
  have slot: "map_of inferredTypes header = Some (infer_header engine sampleRows header)"
    unfolding inferredTypes_def using assms(4) by (simp add: map_of_assign_all)
  have first: "infer_header engine sampleRows header =
      Some (inferType engine (ToString (row_get r0 header)))"
    unfolding sample by (rule infer_header_first)
  have as_set: "infer_header engine sampleRows header =
      element_0 (new_Set (map (\<lambda>r. inferType engine (ToString (row_get r header)))
                            (take sampleSize (r0 # rs))))"
    unfolding sample' by (simp add: infer_header_def comp_def)
  from run slot first as_set show ?thesis
    by metis
qed

theorem inferColumnTypes_first_row_decides_witness:
  "(0::nat) < 10 \<and>
   data_rows \<lparr>data_rows = [[(''code'', ''x1'')], [(''code'', ''2'')], [(''code'', ''3'')]],
              parse_fails = False\<rparr> = [(''code'', ''x1'')] # [[(''code'', ''2'')], [(''code'', ''3'')]] \<and>
   ''code'' \<in> set (Object_keys [(''code'', ''x1'')]) \<and>
   (\<exists>inferredTypes.
      inferColumnTypes strict_engine
        \<lparr>data_rows = [[(''code'', ''x1'')], [(''code'', ''2'')], [(''code'', ''3'')]],
         parse_fails = False\<rparr> 10 = Fulfilled inferredTypes \<and>
      map_of inferredTypes ''code'' = Some (Some T_string))"
proof -
  let ?file = "\<lparr>data_rows = [[(''code'', ''x1'')], [(''code'', ''2'')], [(''code'', ''3'')]],
                parse_fails = False\<rparr>"
  have size: "(0::nat) < 10"
    by simp
  have rows: "data_rows ?file = [(''code'', ''x1'')] # [[(''code'', ''2'')], [(''code'', ''3'')]]"
    by simp
  have ok: "\<not> parse_fails ?file"
    by simp
  have key: "''code'' \<in> set (Object_keys [(''code'', ''x1'')])"
    by (simp add: Object_keys_def)
  have "iso_date_only ''x1'' = None"
    by (simp add: iso_date_only_def)
  then have first: "inferType strict_engine (ToString (row_get [(''code'', ''x1'')] ''code'')) = T_string"
    by (simp add: row_get_def ToString_def inferType_def matches_digits_def matches_decimal_def
        is_digit_def Date_parse_def strict_engine_def truthy_def)
  from inferColumnTypes_first_row_decides [of 10 ?file _ _ "''code''" strict_engine, OF size rows ok key]
  obtain inferredTypes where
    "inferColumnTypes strict_engine ?file 10 = Fulfilled inferredTypes"
    "map_of inferredTypes ''code'' =
       Some (Some (inferType strict_engine (ToString (row_get [(''code'', ''x1'')] ''code''))))"
    by blast
  with first size rows key show ?thesis
    by auto
qed

section \<open>Properties of the batch loader\<close>

lemma loading_start:
  assumes "0 < B" and "tbls tn = Some t0"
  shows "loading B tn tbls t0 [] \<lparr>rows = [], trx = tbls, promise = Pending, batches = []\<rparr>"
proof -
  have "tbls = tbls(tn \<mapsto> t0)"
    using assms(2) by (simp add: fun_upd_idem)
  then show ?thesis
    using assms(1) by (simp add: loading_def)
qed

lemma loading_step:
  assumes "0 < B" and "loading B tn tbls t0 seen l"
  shows "loading B tn tbls t0 (seen @ [r]) (load_on_data B acc tn l r)"
proof (cases "B \<le> Suc (length (rows l))")
  case False
  then show ?thesis
    using assms by (auto simp: loading_def load_on_data_def push_row_def)
next
  case True
  with assms have full: "length (rows l @ [r]) = B"
    by (simp add: loading_def)
  then have push: "push_row B (rows l) r = ([], Some (rows l @ [r]))"
    by (simp add: push_row_def)
  show ?thesis
  proof (cases "promise l")
    case Pending
    then show ?thesis
      using assms full
      by (auto simp: loading_def load_on_data_def push batchInsert_def reject_def)
  next
    case Resolved
    then show ?thesis
      using assms by (simp add: loading_def)
  next
    case (Failed e)
    then show ?thesis
      using assms full
      by (auto simp: loading_def load_on_data_def push batchInsert_def reject_def
          split: option.splits)
  qed
qed

lemma loading_data:
  assumes "0 < B" and "tbls tn = Some t0"
  shows "loading B tn tbls t0 seen
           (foldl (load_on_data B acc tn) \<lparr>rows = [], trx = tbls, promise = Pending, batches = []\<rparr> seen)"
proof (induction seen rule: rev_induct)
  case Nil
  show ?case
    using assms by (simp add: loading_start)
next
  case (snoc r seen)
  then show ?case
    using assms(1) by (simp add: loading_step)
qed

lemma batches_load_on_end:
  "map fst (batches (load_on_end acc tn l)) =
     map fst (batches l) @ (if rows l \<noteq> [] then [rows l] else [])"
  by (simp add: load_on_end_def batchInsert_def split: option.splits)

lemma loading_end:
  fixes acc :: "string \<Rightarrow> row list \<Rightarrow> row list \<Rightarrow> bool"
  assumes "loading B tn tbls t0 seen l"
  defines "l' \<equiv> load_on_end acc tn l"
  shows "(promise l' = Resolved \<longleftrightarrow> (\<forall>p \<in> set (batches l'). snd p)) \<and>
         (promise l' = Resolved \<longrightarrow> trx l' = tbls(tn \<mapsto> t0\<lparr>contents := contents t0 @ seen\<rparr>))"
proof (cases "promise l")
  case Pending
  then show ?thesis
    using assms(1) unfolding l'_def
    by (auto simp: loading_def load_on_end_def batchInsert_def reject_def resolve_def)
next
  case Resolved
  then show ?thesis
    using assms(1) by (simp add: loading_def)
next
  case (Failed e)
  then show ?thesis
    using assms(1) unfolding l'_def
    by (auto simp: loading_def load_on_end_def batchInsert_def reject_def resolve_def
        split: option.splits)
qed

lemma load_outcome:
  fixes acc :: "string \<Rightarrow> row list \<Rightarrow> row list \<Rightarrow> bool" and src :: csv_file
  assumes "0 < B" and "tbls tn = Some t0"
  defines "l \<equiv> load B acc tn tbls src"
  shows "(promise l = Resolved \<longleftrightarrow> \<not> parse_fails src \<and> (\<forall>p \<in> set (batches l). snd p)) \<and>
         (promise l = Resolved \<longrightarrow>
            trx l = tbls(tn \<mapsto> t0\<lparr>contents := contents t0 @ data_rows src\<rparr>))"
proof -
  define l1 where
    "l1 = foldl (load_on_data B acc tn) \<lparr>rows = [], trx = tbls, promise = Pending, batches = []\<rparr>
            (data_rows src)"
  have inv: "loading B tn tbls t0 (data_rows src) l1"
    unfolding l1_def using assms(1,2) by (rule loading_data)
  show ?thesis
  proof (cases "parse_fails src")
    case True
    then have "l = l1\<lparr>promise := reject ParseError (promise l1)\<rparr>"
      by (simp add: l_def load_def l1_def Let_def)
    moreover have "reject ParseError (promise l1) \<noteq> Resolved"
      using inv by (cases "promise l1") (simp_all add: loading_def reject_def)
    ultimately show ?thesis
      using True by simp
  next
    case False
    then have "l = load_on_end acc tn l1"
      by (simp add: l_def load_def l1_def Let_def)
    then show ?thesis
      using loading_end [OF inv, of acc] False by simp
  qed
qed

lemma batch_sizes_of_data:
  assumes "loading B tn tbls t0 seen l"
  shows "map (\<lambda>p. length (fst p)) (batches l) = replicate (length seen div B) B \<and>
         length (rows l) = length seen mod B"
proof -
  let ?k = "length (batches l)"
  have sizes: "map (\<lambda>p. length (fst p)) (batches l) = replicate ?k B"
    using assms by (simp add: loading_def map_replicate_const [symmetric] cong: map_cong)
  have "length (concat (map fst (batches l))) = sum_list (map (\<lambda>p. length (fst p)) (batches l))"
    by (simp add: length_concat comp_def)
  also have "\<dots> = ?k * B"
    by (simp add: sizes sum_list_replicate)
  finally have "length seen = ?k * B + length (rows l)"
    using assms by (auto simp: loading_def)
  moreover have "length (rows l) < B"
    using assms by (simp add: loading_def)
  ultimately have "length seen div B = ?k" and "length seen mod B = length (rows l)"
    by simp_all
  with sizes show ?thesis
    by simp
qed

lemma load_batch_sizes:
  fixes src :: csv_file
  assumes "0 < B" and "tbls tn = Some t0" and "\<not> parse_fails src"
  defines "n \<equiv> length (data_rows src)"
  shows "map (\<lambda>p. length (fst p)) (batches (load B acc tn tbls src)) =
           replicate (n div B) B @ (if n mod B = 0 then [] else [n mod B])"
proof -
  define l1 where
    "l1 = foldl (load_on_data B acc tn) \<lparr>rows = [], trx = tbls, promise = Pending, batches = []\<rparr>
            (data_rows src)"
  have inv: "loading B tn tbls t0 (data_rows src) l1"
    unfolding l1_def using assms(1,2) by (rule loading_data)
  have l: "load B acc tn tbls src = load_on_end acc tn l1"
    using assms(3) by (simp add: load_def l1_def Let_def)
  have "map (\<lambda>p. length (fst p)) (batches (load_on_end acc tn l1)) =
          map length (map fst (batches (load_on_end acc tn l1)))"
    by (simp add: comp_def)
  also have "\<dots> = map (\<lambda>p. length (fst p)) (batches l1) @ (if rows l1 \<noteq> [] then [length (rows l1)] else [])"
    by (simp add: batches_load_on_end comp_def)
  finally have "map (\<lambda>p. length (fst p)) (batches (load B acc tn tbls src)) =
      map (\<lambda>p. length (fst p)) (batches l1) @ (if rows l1 \<noteq> [] then [length (rows l1)] else [])"
    by (simp add: l)
  moreover have "rows l1 = [] \<longleftrightarrow> n mod B = 0"
    using batch_sizes_of_data [OF inv] by (metis length_0_conv n_def)
  ultimately show ?thesis
    using batch_sizes_of_data [OF inv] by (simp add: n_def)
qed

lemma ceiling_div:
  fixes n B :: nat
  assumes "0 < B"
  shows "n div B + (if n mod B = 0 then 0 else 1) = (n + B - 1) div B"
proof -
  obtain b where B: "B = Suc b"
    using assms by (cases B) auto
  define k r where "k = n div B" and "r = n mod B"
  have n: "n = k * B + r" and r: "r < B"
    using assms by (simp_all add: k_def r_def)
  have fit: "(j * B + x) div B = j" if "x < B" for j x
    using that by simp
  show ?thesis
  proof (cases "r = 0")
    case True
    have "n + B - 1 = k * B + b"
      using n True B by simp
    then have "(n + B - 1) div B = k"
      using fit [of b k] B by simp
    then show ?thesis
      using True by (simp add: k_def r_def)
  next
    case False
    have "n + B - 1 = (k + 1) * B + (r - 1)"
      using n False B by simp
    moreover have "((k + 1) * B + (r - 1)) div B = k + 1"
      using r by (intro fit) simp
    ultimately have "(n + B - 1) div B = k + 1"
      by simp
    then show ?thesis
      using False by (simp add: k_def r_def)
  qed
qed

lemma load_batches_concat:
  fixes src :: csv_file
  assumes "0 < B" and "tbls tn = Some t0" and "\<not> parse_fails src"
  shows "concat (map fst (batches (load B acc tn tbls src))) = data_rows src"
proof -
  define l1 where
    "l1 = foldl (load_on_data B acc tn) \<lparr>rows = [], trx = tbls, promise = Pending, batches = []\<rparr>
            (data_rows src)"
  have inv: "loading B tn tbls t0 (data_rows src) l1"
    unfolding l1_def using assms(1,2) by (rule loading_data)
  have "load B acc tn tbls src = load_on_end acc tn l1"
    using assms(3) by (simp add: load_def l1_def Let_def)
  then show ?thesis
    using inv by (auto simp: batches_load_on_end loading_def)
qed

lemma accepting_step:
  assumes "loading B tn tbls t0 seen l" and "promise l = Pending"
    and "\<forall>held batch. acc tn held batch"
  shows "promise (load_on_data B acc tn l r) = Pending"
  using assms
  by (auto simp: loading_def load_on_data_def push_row_def batchInsert_def Let_def
      split: option.splits)

lemma accepting_data:
  assumes "0 < B" and "tbls tn = Some t0" and "\<forall>held batch. acc tn held batch"
  shows "promise (foldl (load_on_data B acc tn)
                    \<lparr>rows = [], trx = tbls, promise = Pending, batches = []\<rparr> seen) = Pending"
proof (induction seen rule: rev_induct)
  case Nil
  show ?case by simp
next
  case (snoc r seen)
  have "loading B tn tbls t0 seen
          (foldl (load_on_data B acc tn) \<lparr>rows = [], trx = tbls, promise = Pending, batches = []\<rparr> seen)"
    using assms(1,2) by (rule loading_data)
  then show ?case
    using snoc assms(3) by (simp add: accepting_step)
qed

lemma accepting_load:
  fixes src :: csv_file
  assumes "0 < B" and "tbls tn = Some t0" and "\<forall>held batch. acc tn held batch"
    and "\<not> parse_fails src"
  shows "promise (load B acc tn tbls src) = Resolved"
proof -
  define l1 where
    "l1 = foldl (load_on_data B acc tn) \<lparr>rows = [], trx = tbls, promise = Pending, batches = []\<rparr>
            (data_rows src)"
  have inv: "loading B tn tbls t0 (data_rows src) l1"
    unfolding l1_def using assms(1,2) by (rule loading_data)
  have pending: "promise l1 = Pending"
    unfolding l1_def using assms(1,2,3) by (rule accepting_data)
  have "load B acc tn tbls src = load_on_end acc tn l1"
    using assms(4) by (simp add: load_def l1_def Let_def)
  then show ?thesis
    using inv pending assms(3)
    by (auto simp: loading_def load_on_end_def batchInsert_def resolve_def)
qed

lemma sample_store_customers: "tables (sample_store n) ''customers'' = Some (sample_table n)"
  by (simp add: sample_store_def)

lemma sample_store_organizations: "tables (sample_store n) ''organizations'' = Some (sample_table n)"
  by (simp add: sample_store_def)

lemma sample_env_file: "files (sample_env n acc) path = sample_file n"
  by (simp add: sample_env_def)

lemma sample_file_rows: "length (data_rows (sample_file n)) = n" "\<not> parse_fails (sample_file n)"
  by (simp_all add: sample_file_def)

lemma sample_table_rows: "length (contents (sample_table n)) = n"
  by (simp add: sample_table_def)

section \<open>Properties of the event order\<close>

text \<open>
  In both versions the array \<^verbatim>\<open>rows\<close> stays below the batch size between events (it
  reaches it only inside the \<^verbatim>\<open>'data'\<close> listener, between the push and the splice).
\<close>

lemma push_row_bounded:
  assumes "0 < B" and "length rs < B"
  shows "length (fst (push_row B rs r)) < B"
  using assms by (simp add: push_row_def Let_def)

lemma batchInsert_rows: "rows (batchInsert acc tn batch l) = rows l"
  by (simp add: batchInsert_def split: option.splits)

lemma step_buffer_bounded:
  assumes "0 < B" and "length (rows (ld f)) < B" and "step v B acc tn f ev = Some f'"
  shows "length (rows (ld f')) < B"
proof (cases ev)
  case (Data r)
  have "length (fst (push_row B (rows (ld f)) r)) < B"
    using assms(1,2) by (rule push_row_bounded)
  with Data assms(3) show ?thesis
    by (auto simp: step_def split: if_splits prod.splits option.splits)
next
  case InsertDone
  with assms show ?thesis
    by (auto simp: step_def Let_def batchInsert_rows split: if_splits list.splits)
next
  case End
  with assms show ?thesis
    by (auto simp: step_def split: if_splits)
qed

lemma run_buffer_bounded:
  assumes "0 < B"
  shows "length (rows (ld f)) < B \<Longrightarrow> run v B acc tn f evs = Some f' \<Longrightarrow> length (rows (ld f')) < B"
proof (induction evs arbitrary: f)
  case Nil
  then show ?case by simp
next
  case (Cons ev evs)
  then obtain f1 where f1: "step v B acc tn f ev = Some f1" and rest: "run v B acc tn f1 evs = Some f'"
    by (auto split: option.splits)
  have "length (rows (ld f1)) < B"
    using assms Cons.prems(1) f1 by (rule step_buffer_bounded)
  then show ?case
    using rest by (rule Cons.IH)
qed

lemma every_version_bounds_the_buffer:
  assumes "0 < B" and "run v B acc tn (feed_start tbls) evs = Some f"
  shows "length (rows (ld f)) < B"
proof -
  have "length (rows (ld (feed_start tbls))) < B"
    using assms(1) by (simp add: feed_start_def)
  then show ?thesis
    using assms by (auto intro: run_buffer_bounded)
qed

text \<open>
  Under \<^verbatim>\<open>src/challenge-1\<close> at most one insert is in flight, and no row arrives while
  it is. The end of the stream can arrive while it is.
\<close>

lemma step_backpressure:
  assumes "0 < B" and "length (rows (ld f)) < B" and "backpressure f"
    and "step challenge_1 B acc tn f ev = Some f'"
  shows "backpressure f'"
proof (cases ev)
  case (Data r)
  with assms show ?thesis
    by (auto simp: step_def backpressure_def pauses_def push_row_def Let_def
        split: if_splits)
next
  case InsertDone
  with assms show ?thesis
    by (auto simp: step_def backpressure_def Let_def batchInsert_rows split: if_splits list.splits)
next
  case End
  with assms show ?thesis
    by (auto simp: step_def backpressure_def split: if_splits)
qed

lemma run_backpressure:
  assumes "0 < B"
  shows "length (rows (ld f)) < B \<Longrightarrow> backpressure f \<Longrightarrow>
         run challenge_1 B acc tn f evs = Some f' \<Longrightarrow> backpressure f'"
proof (induction evs arbitrary: f)
  case Nil
  then show ?case by simp
next
  case (Cons ev evs)
  then obtain f1 where f1: "step challenge_1 B acc tn f ev = Some f1"
    and rest: "run challenge_1 B acc tn f1 evs = Some f'"
    by (auto split: option.splits)
  have bound: "length (rows (ld f1)) < B"
    using assms Cons.prems(1) f1 by (rule step_buffer_bounded)
  have "backpressure f1"
    using assms Cons.prems(1,2) f1 by (rule step_backpressure)
  with bound show ?case
    using rest by (intro Cons.IH)
qed

lemma challenge_1_backpressure:
  assumes "0 < B" and "run challenge_1 B acc tn (feed_start tbls) evs = Some f"
  shows "length (in_flight f) \<le> 1 \<and>
         (in_flight f \<noteq> [] \<and> \<not> ended f \<longrightarrow> step challenge_1 B acc tn f (Data r) = None)"
proof -
  have "backpressure (feed_start tbls)" and "length (rows (ld (feed_start tbls))) < B"
    using assms(1) by (simp_all add: backpressure_def feed_start_def)
  then have "backpressure f"
    using assms run_backpressure by blast
  then show ?thesis
    by (auto simp: backpressure_def step_def)
qed

lemma challenge_1_end_while_paused:
  assumes "paused f" and "\<not> ended f" and "rows (ld f) = []"
  shows "step challenge_1 B acc tn f End =
           Some (f\<lparr>ended := True, ld := (ld f)\<lparr>promise := resolve (promise (ld f))\<rparr>\<rparr>)"
  using assms by (simp add: step_def)

text \<open>
  C9. The version with the table check does not pause the stream. After ten rows its
  first insert is in flight and the stream still flows; after twenty rows two inserts
  are in flight, each holding its batch, and nothing bounds their number. Under
  \<^verbatim>\<open>src/challenge-1\<close> the same ten rows leave one insert in flight and the stream
  paused: an eleventh row cannot arrive before that insert is done.
\<close>

theorem table_check_version_parses_during_insert:
  "observe (tables (sample_store 0)) ''customers''
     (run table_check_version 10 accept_all ''customers'' (feed_start (tables (sample_store 0)))
        (replicate 10 (Data [(''name'', ''Ada'')]))) = Some (Pending, [], 1, Some 0) \<and>
   observe (tables (sample_store 0)) ''customers''
     (run table_check_version 10 accept_all ''customers'' (feed_start (tables (sample_store 0)))
        (replicate 20 (Data [(''name'', ''Ada'')]))) = Some (Pending, [], 2, Some 0) \<and>
   observe (tables (sample_store 0)) ''customers''
     (run challenge_1 10 accept_all ''customers'' (feed_start (tables (sample_store 0)))
        (replicate 10 (Data [(''name'', ''Ada'')]))) = Some (Pending, [], 1, Some 0) \<and>
   run challenge_1 10 accept_all ''customers'' (feed_start (tables (sample_store 0)))
     (replicate 11 (Data [(''name'', ''Ada'')])) = None"
  by code_simp

section \<open>Properties of the load of a file\<close>

text \<open>
  When the store carries out every insert before the stream emits its next event, the
  load of a file is, in both versions, the sequence of the listeners.
\<close>

lemma carry_out_idle: "in_flight f = [] \<Longrightarrow> carry_out v B acc tn k f = f"
  by (cases k) (simp_all add: step_def)

lemma carry_out_keeping_up:
  assumes "keeping_up v f" and "0 < k"
  shows "carry_out v B acc tn k f =
           f\<lparr>ld := drain acc tn (in_flight f) (ld f), in_flight := [], paused := False\<rparr>"
proof -
  from assms(2) obtain j where k: "k = Suc j"
    by (cases k) auto
  show ?thesis
  proof (cases "in_flight f")
    case Nil
    with assms(1) have "\<not> paused f"
      by (simp add: keeping_up_def)
    with Nil show ?thesis
      by (cases f) (simp add: carry_out_idle)
  next
    case (Cons p rest)
    with assms(1) obtain batch where one: "in_flight f = [(batch, False)]" and p: "paused f = pauses v"
      by (cases p; cases rest) (auto simp: keeping_up_def)
    have "step v B acc tn f InsertDone =
        Some (f\<lparr>ld := batchInsert acc tn batch (ld f), in_flight := [], paused := False\<rparr>)"
      using one p by (simp add: step_def Let_def)
    then show ?thesis
      using one by (simp add: k carry_out_idle)
  qed
qed

lemma deliver_data_keeping_up:
  fixes v :: version and B k :: nat and acc :: "string \<Rightarrow> row list \<Rightarrow> row list \<Rightarrow> bool"
    and tn :: string and f :: feed and r :: row
  assumes "keeping_up v f" and "0 < k"
  defines "f' \<equiv> deliver v B acc tn k f (Data r)"
  shows "keeping_up v f' \<and>
         drain acc tn (in_flight f') (ld f') =
           load_on_data B acc tn (drain acc tn (in_flight f) (ld f)) r"
proof -
  define f1 where "f1 = f\<lparr>ld := drain acc tn (in_flight f) (ld f), in_flight := [], paused := False\<rparr>"
  have c: "carry_out v B acc tn k f = f1"
    unfolding f1_def using assms(1,2) by (rule carry_out_keeping_up)
  have live: "\<not> ended f1" "\<not> paused f1" "in_flight f1 = []" "ld f1 = drain acc tn (in_flight f) (ld f)"
    using assms(1) by (simp_all add: f1_def keeping_up_def)
  have "f' = (case step v B acc tn f1 (Data r) of None \<Rightarrow> f1 | Some g \<Rightarrow> g)"
    by (simp add: f'_def deliver_def c Let_def live)
  then show ?thesis
    using live
    by (auto simp: step_def load_on_data_def keeping_up_def Let_def
        split: prod.splits option.splits)
qed

lemma emit_rows_keeping_up:
  assumes "\<forall>i. 0 < progress i"
  shows "keeping_up v f \<Longrightarrow>
         keeping_up v (emit_rows v B acc tn progress i f rs) \<and>
         drain acc tn (in_flight (emit_rows v B acc tn progress i f rs))
           (ld (emit_rows v B acc tn progress i f rs)) =
           foldl (load_on_data B acc tn) (drain acc tn (in_flight f) (ld f)) rs"
proof (induction rs arbitrary: i f)
  case Nil
  then show ?case by simp
next
  case (Cons r rs)
  have "0 < progress i"
    using assms by simp
  with Cons.prems have one: "keeping_up v (deliver v B acc tn (progress i) f (Data r))"
    "drain acc tn (in_flight (deliver v B acc tn (progress i) f (Data r)))
       (ld (deliver v B acc tn (progress i) f (Data r))) =
     load_on_data B acc tn (drain acc tn (in_flight f) (ld f)) r"
    using deliver_data_keeping_up by blast+
  from Cons.IH [OF one(1), of "Suc i"] one(2) show ?case
    by simp
qed

lemma load_stream_at_once:
  fixes src :: csv_file
  assumes "\<forall>i. 0 < progress i"
  shows "load_stream v B acc tn progress tbls src = load B acc tn tbls src"
proof -
  define f1 where "f1 = emit_rows v B acc tn progress 0 (feed_start tbls) (data_rows src)"
  define l1 where
    "l1 = foldl (load_on_data B acc tn) \<lparr>rows = [], trx = tbls, promise = Pending, batches = []\<rparr>
            (data_rows src)"
  define n where "n = length (data_rows src)"
  have start: "keeping_up v (feed_start tbls)"
    by (simp add: keeping_up_def feed_start_def)
  have k1: "keeping_up v f1" and d1: "drain acc tn (in_flight f1) (ld f1) = l1"
    using emit_rows_keeping_up [OF assms start, of B acc tn 0 "data_rows src"]
    by (simp_all add: f1_def l1_def feed_start_def)
  have pos: "0 < progress n"
    using assms by simp
  define g where "g = f1\<lparr>ld := l1, in_flight := [], paused := False\<rparr>"
  have c: "carry_out v B acc tn (progress n) f1 = g"
    using carry_out_keeping_up [OF k1 pos] by (simp add: g_def d1)
  have g: "\<not> ended g" "\<not> paused g" "in_flight g = []" "ld g = l1"
    using k1 by (simp_all add: g_def keeping_up_def)
  show ?thesis
  proof (cases "parse_fails src")
    case True
    then show ?thesis
      by (simp add: load_stream_def load_def Let_def f1_def [symmetric] l1_def [symmetric]
          n_def [symmetric] c g)
  next
    case False
    have "deliver v B acc tn (progress n) f1 End =
        (if rows l1 \<noteq> [] then g\<lparr>ended := True, in_flight := [(rows l1, True)]\<rparr>
         else g\<lparr>ended := True, ld := l1\<lparr>promise := resolve (promise l1)\<rparr>\<rparr>)"
      by (simp add: deliver_def c Let_def g step_def)
    then show ?thesis
      using False
      by (simp add: load_stream_def load_def Let_def f1_def [symmetric] l1_def [symmetric]
          n_def [symmetric] g step_def load_on_end_def numeral_1_eq_Suc_0)
  qed
qed

text \<open>
  In every order of events, and in both versions, the batches handed to
  \<^verbatim>\<open>trx.batchInsert\<close> are those of the sequence of the listeners: which rows make a
  batch is decided when the rows arrive, not when the inserts are carried out.
\<close>

lemma batchInsert_batches: "map fst (batches (batchInsert acc tn batch l)) = map fst (batches l) @ [batch]"
  by (simp add: batchInsert_def split: option.splits)

lemma step_done_reading:
  assumes "reading v f" and "step v B acc tn f InsertDone = Some f'"
  shows "reading v f' \<and> \<not> paused f' \<and> rows (ld f') = rows (ld f) \<and> issued f' = issued f \<and>
         length (in_flight f') < length (in_flight f)"
proof -
  from assms(2) obtain batch of_end rest where one: "in_flight f = (batch, of_end) # rest"
    by (cases "in_flight f") (auto simp: step_def)
  with assms(1) have "\<not> of_end"
    by (auto simp: reading_def)
  with assms one show ?thesis
    by (auto simp: step_def Let_def reading_def issued_def batchInsert_rows batchInsert_batches
        split: if_splits)
qed

lemma carry_out_reading:
  "reading v f \<Longrightarrow>
   reading v (carry_out v B acc tn k f) \<and>
   rows (ld (carry_out v B acc tn k f)) = rows (ld f) \<and>
   issued (carry_out v B acc tn k f) = issued f"
proof (induction k arbitrary: f)
  case 0
  then show ?case by simp
next
  case (Suc k)
  show ?case
  proof (cases "step v B acc tn f InsertDone")
    case None
    with Suc.prems show ?thesis by simp
  next
    case (Some f')
    from step_done_reading [OF Suc.prems Some] Suc.IH [of f'] Some show ?thesis
      by simp
  qed
qed

lemma carry_out_all_reading:
  "reading v f \<Longrightarrow> length (in_flight f) \<le> k \<Longrightarrow> in_flight f \<noteq> [] \<Longrightarrow>
   \<not> paused (carry_out v B acc tn k f)"
proof (induction k arbitrary: f)
  case 0
  then show ?case by simp
next
  case (Suc k)
  from Suc.prems(3) have "step v B acc tn f InsertDone \<noteq> None"
    by (cases "in_flight f") (auto simp: step_def Let_def)
  then obtain f' where f': "step v B acc tn f InsertDone = Some f'"
    by blast
  note after = step_done_reading [OF Suc.prems(1) f']
  show ?case
  proof (cases "in_flight f' = []")
    case True
    with after f' show ?thesis
      by (simp add: carry_out_idle)
  next
    case False
    with after Suc.prems(2) have "\<not> paused (carry_out v B acc tn k f')"
      by (intro Suc.IH) auto
    with f' show ?thesis
      by simp
  qed
qed

lemma deliver_data_reading:
  fixes v :: version and B k :: nat and acc :: "string \<Rightarrow> row list \<Rightarrow> row list \<Rightarrow> bool"
    and tn :: string and f :: feed and r :: row
  assumes "reading v f"
  defines "f' \<equiv> deliver v B acc tn k f (Data r)"
  shows "reading v f' \<and>
         rows (ld f') = fst (push_row B (rows (ld f)) r) \<and>
         issued f' = issued f @ (case snd (push_row B (rows (ld f)) r) of None \<Rightarrow> [] | Some batch \<Rightarrow> [batch])"
proof -
  define f1 where "f1 = carry_out v B acc tn k f"
  define f2 where "f2 = (if paused f1 then carry_out v B acc tn (length (in_flight f1)) f1 else f1)"
  have r1: "reading v f1" "rows (ld f1) = rows (ld f)" "issued f1 = issued f"
    unfolding f1_def using carry_out_reading [OF assms(1)] by simp_all
  have r2: "reading v f2" "rows (ld f2) = rows (ld f)" "issued f2 = issued f"
    unfolding f2_def using carry_out_reading [OF r1(1)] r1 by simp_all
  have flowing: "\<not> paused f2"
  proof (cases "paused f1")
    case True
    with r1(1) have "in_flight f1 \<noteq> []"
      by (simp add: reading_def)
    with r1(1) show ?thesis
      unfolding f2_def using True by (simp add: carry_out_all_reading)
  next
    case False
    then show ?thesis
      by (simp add: f2_def)
  qed
  have live: "\<not> ended f2"
    using r2(1) by (simp add: reading_def)
  have "f' = (case step v B acc tn f2 (Data r) of None \<Rightarrow> f2 | Some g \<Rightarrow> g)"
    unfolding f'_def deliver_def Let_def f1_def f2_def by simp
  then show ?thesis
    using flowing live r2
    by (auto simp: step_def reading_def issued_def split: prod.splits option.splits)
qed

lemma load_on_data_issues:
  "rows (load_on_data B acc tn l r) = fst (push_row B (rows l) r) \<and>
   map fst (batches (load_on_data B acc tn l r)) =
     map fst (batches l) @ (case snd (push_row B (rows l) r) of None \<Rightarrow> [] | Some batch \<Rightarrow> [batch])"
  by (auto simp: load_on_data_def batchInsert_rows batchInsert_batches split: prod.splits option.splits)

lemma emit_rows_reading:
  "reading v f \<Longrightarrow> rows (ld f) = rows l \<Longrightarrow> issued f = map fst (batches l) \<Longrightarrow>
   reading v (emit_rows v B acc tn progress i f rs) \<and>
   rows (ld (emit_rows v B acc tn progress i f rs)) = rows (foldl (load_on_data B acc' tn) l rs) \<and>
   issued (emit_rows v B acc tn progress i f rs) =
     map fst (batches (foldl (load_on_data B acc' tn) l rs))"
proof (induction rs arbitrary: i f l)
  case Nil
  then show ?case by simp
next
  case (Cons r rs)
  note one = deliver_data_reading [OF Cons.prems(1), of B acc tn "progress i" r]
  note two = load_on_data_issues [of B acc' tn l r]
  have "reading v (deliver v B acc tn (progress i) f (Data r))"
    and "rows (ld (deliver v B acc tn (progress i) f (Data r))) = rows (load_on_data B acc' tn l r)"
    and "issued (deliver v B acc tn (progress i) f (Data r)) =
           map fst (batches (load_on_data B acc' tn l r))"
    using one two Cons.prems(2,3) by simp_all
  from Cons.IH [OF this] show ?case
    by simp
qed

lemma carry_out_all:
  "length (in_flight f) \<le> k \<Longrightarrow>
   in_flight (carry_out v B acc tn k f) = [] \<and>
   map fst (batches (ld (carry_out v B acc tn k f))) = issued f"
proof (induction k arbitrary: f)
  case 0
  then show ?case by (simp add: issued_def)
next
  case (Suc k)
  show ?case
  proof (cases "in_flight f")
    case Nil
    then show ?thesis
      by (simp add: step_def issued_def)
  next
    case (Cons p rest)
    obtain batch of_end where p: "p = (batch, of_end)"
      by (cases p)
    define f' where "f' = (let l = batchInsert acc tn batch (ld f)
        in if of_end then f\<lparr>ld := l\<lparr>promise := resolve (promise l)\<rparr>, in_flight := rest\<rparr>
           else f\<lparr>ld := l, in_flight := rest, paused := (if pauses v then False else paused f)\<rparr>)"
    have s: "step v B acc tn f InsertDone = Some f'"
      by (simp add: step_def Cons p f'_def Let_def)
    have "in_flight f' = rest" and i: "issued f' = issued f"
      by (simp_all add: f'_def Let_def issued_def Cons p batchInsert_batches)
    with Suc.prems Cons have "length (in_flight f') \<le> k"
      by simp
    from Suc.IH [OF this] s i show ?thesis
      by simp
  qed
qed

lemma load_stream_issues:
  fixes src :: csv_file
  assumes "\<not> parse_fails src"
  shows "map fst (batches (load_stream v B acc tn progress tbls src)) =
           map fst (batches (load B acc' tn tbls src))"
proof -
  define l0 :: loader where "l0 = \<lparr>rows = [], trx = tbls, promise = Pending, batches = []\<rparr>"
  define f1 where "f1 = emit_rows v B acc tn progress 0 (feed_start tbls) (data_rows src)"
  define l1 where "l1 = foldl (load_on_data B acc' tn) l0 (data_rows src)"
  define n where "n = length (data_rows src)"
  have "reading v (feed_start tbls)" "rows (ld (feed_start tbls)) = rows l0"
    "issued (feed_start tbls) = map fst (batches l0)"
    by (simp_all add: reading_def feed_start_def issued_def l0_def)
  from emit_rows_reading [OF this, of B acc tn progress 0 "data_rows src" acc']
  have r1: "reading v f1" "rows (ld f1) = rows l1" "issued f1 = map fst (batches l1)"
    by (simp_all add: f1_def l1_def)
  define g where "g = carry_out v B acc tn (progress n) f1"
  have g: "reading v g" "rows (ld g) = rows l1" "issued g = map fst (batches l1)"
    unfolding g_def using carry_out_reading [OF r1(1)] r1 by simp_all
  define f2 where "f2 = deliver v B acc tn (progress n) f1 End"
  have "f2 = (case step v B acc tn g End of None \<Rightarrow> g | Some h \<Rightarrow> h)"
    unfolding f2_def deliver_def Let_def g_def by simp
  with g have "issued f2 = map fst (batches l1) @ (if rows l1 \<noteq> [] then [rows l1] else [])"
    by (auto simp: step_def reading_def issued_def)
  then have "issued f2 = map fst (batches (load_on_end acc' tn l1))"
    by (simp add: batches_load_on_end)
  moreover have "map fst (batches (ld (carry_out v B acc tn (length (in_flight f2)) f2))) = issued f2"
    using carry_out_all [of f2 "length (in_flight f2)"] by simp
  ultimately show ?thesis
    using assms
    by (simp add: load_stream_def load_def Let_def f1_def [symmetric] l1_def [symmetric]
        l0_def [symmetric] n_def [symmetric] f2_def [symmetric])
qed

text \<open>
  Carrying out the inserts in flight one after the other does to the load what the
  listeners in sequence would have done to it, as long as \<^verbatim>\<open>resolve()\<close> has not been
  called in between.
\<close>

lemma batchInsert_rows_update:
  "batchInsert acc tn batch (l\<lparr>rows := rs\<rparr>) = (batchInsert acc tn batch l)\<lparr>rows := rs\<rparr>"
  by (simp add: batchInsert_def split: option.splits)

lemma drain_rows_update:
  "drain acc tn q (l\<lparr>rows := rs\<rparr>) = (drain acc tn q l)\<lparr>rows := rs\<rparr>"
proof (induction q arbitrary: l)
  case Nil
  show ?case by simp
next
  case (Cons p q)
  obtain batch of_end where p: "p = (batch, of_end)"
    by (cases p)
  define X where "X = batchInsert acc tn batch l"
  define Y where "Y = (if of_end then X\<lparr>promise := resolve (promise X)\<rparr> else X)"
  have swap: "X\<lparr>rows := rs, promise := x\<rparr> = X\<lparr>promise := x, rows := rs\<rparr>" for x
    by (cases X) simp
  have a: "drain acc tn (p # q) (l\<lparr>rows := rs\<rparr>) = drain acc tn q (Y\<lparr>rows := rs\<rparr>)"
    by (simp add: p Let_def batchInsert_rows_update X_def [symmetric] Y_def swap)
  have b: "drain acc tn (p # q) l = drain acc tn q Y"
    by (simp add: p Let_def X_def Y_def)
  show ?case
    unfolding a b by (rule Cons.IH)
qed

lemma drain_rows: "rows (drain acc tn q l) = rows l"
proof (induction q arbitrary: l)
  case Nil
  show ?case by simp
next
  case (Cons p q)
  obtain batch of_end where p: "p = (batch, of_end)"
    by (cases p)
  show ?case
    by (simp add: p Let_def Cons.IH batchInsert_rows)
qed

lemma drain_append: "drain acc tn (q @ q') l = drain acc tn q' (drain acc tn q l)"
proof (induction q arbitrary: l)
  case Nil
  show ?case by simp
next
  case (Cons p q)
  obtain batch of_end where p: "p = (batch, of_end)"
    by (cases p)
  show ?case
    by (simp add: p Let_def Cons.IH)
qed

lemma step_done_drain:
  assumes "step v B acc tn f InsertDone = Some f'"
  shows "drain acc tn (in_flight f') (ld f') = drain acc tn (in_flight f) (ld f)"
proof -
  from assms obtain batch of_end rest where one: "in_flight f = (batch, of_end) # rest"
    by (cases "in_flight f") (auto simp: step_def)
  with assms show ?thesis
    by (auto simp: step_def Let_def split: if_splits)
qed

lemma carry_out_drain:
  "drain acc tn (in_flight (carry_out v B acc tn k f)) (ld (carry_out v B acc tn k f)) =
     drain acc tn (in_flight f) (ld f)"
proof (induction k arbitrary: f)
  case 0
  show ?case by simp
next
  case (Suc k)
  show ?case
  proof (cases "step v B acc tn f InsertDone")
    case None
    then show ?thesis by simp
  next
    case (Some f')
    from step_done_drain [OF Some] Suc.IH [of f'] Some show ?thesis
      by simp
  qed
qed

lemma carry_out_all_drain:
  "length (in_flight f) \<le> k \<Longrightarrow> ld (carry_out v B acc tn k f) = drain acc tn (in_flight f) (ld f)"
  using carry_out_drain [of acc tn v B k f] carry_out_all [of f k v B acc tn] by simp

lemma deliver_data_drain:
  fixes v :: version and B k :: nat and acc :: "string \<Rightarrow> row list \<Rightarrow> row list \<Rightarrow> bool"
    and tn :: string and f :: feed and r :: row
  assumes "reading v f"
  defines "f' \<equiv> deliver v B acc tn k f (Data r)"
  shows "drain acc tn (in_flight f') (ld f') =
           load_on_data B acc tn (drain acc tn (in_flight f) (ld f)) r"
proof -
  define f1 where "f1 = carry_out v B acc tn k f"
  define f2 where "f2 = (if paused f1 then carry_out v B acc tn (length (in_flight f1)) f1 else f1)"
  have r1: "reading v f1"
    unfolding f1_def using carry_out_reading [OF assms(1)] by simp
  have r2: "reading v f2"
    unfolding f2_def using carry_out_reading [OF r1] r1 by simp
  have same: "drain acc tn (in_flight f2) (ld f2) = drain acc tn (in_flight f) (ld f)"
    by (simp add: f2_def f1_def carry_out_drain)
  have flowing: "\<not> paused f2"
  proof (cases "paused f1")
    case True
    with r1 have "in_flight f1 \<noteq> []"
      by (simp add: reading_def)
    with r1 show ?thesis
      unfolding f2_def using True by (simp add: carry_out_all_reading)
  next
    case False
    then show ?thesis
      by (simp add: f2_def)
  qed
  have live: "\<not> ended f2"
    using r2 by (simp add: reading_def)
  have f': "f' = (case step v B acc tn f2 (Data r) of None \<Rightarrow> f2 | Some g \<Rightarrow> g)"
    unfolding f'_def deliver_def Let_def f1_def f2_def by simp
  have rows2: "rows (drain acc tn (in_flight f2) (ld f2)) = rows (ld f2)"
    by (rule drain_rows)
  show ?thesis
  proof (cases "push_row B (rows (ld f2)) r")
    case (Pair rs taken)
    show ?thesis
    proof (cases taken)
      case None
      with Pair f' flowing live have "f' = f2\<lparr>ld := (ld f2)\<lparr>rows := rs\<rparr>\<rparr>"
        by (simp add: step_def)
      then have "drain acc tn (in_flight f') (ld f') =
          (drain acc tn (in_flight f2) (ld f2))\<lparr>rows := rs\<rparr>"
        by (simp add: drain_rows_update)
      also have "\<dots> = load_on_data B acc tn (drain acc tn (in_flight f2) (ld f2)) r"
        using Pair None by (simp add: load_on_data_def rows2)
      finally show ?thesis
        by (simp add: same)
    next
      case (Some batch)
      with Pair f' flowing live have
        "f' = f2\<lparr>ld := (ld f2)\<lparr>rows := rs\<rparr>, paused := pauses v,
                  in_flight := in_flight f2 @ [(batch, False)]\<rparr>"
        by (simp add: step_def)
      then have "drain acc tn (in_flight f') (ld f') =
          batchInsert acc tn batch ((drain acc tn (in_flight f2) (ld f2))\<lparr>rows := rs\<rparr>)"
        by (simp add: drain_append drain_rows_update batchInsert_rows_update)
      also have "\<dots> = load_on_data B acc tn (drain acc tn (in_flight f2) (ld f2)) r"
        using Pair Some by (simp add: load_on_data_def rows2)
      finally show ?thesis
        by (simp add: same)
    qed
  qed
qed

lemma emit_rows_drain:
  "reading v f \<Longrightarrow>
   drain acc tn (in_flight (emit_rows v B acc tn progress i f rs))
     (ld (emit_rows v B acc tn progress i f rs)) =
     foldl (load_on_data B acc tn) (drain acc tn (in_flight f) (ld f)) rs"
proof (induction rs arbitrary: i f)
  case Nil
  show ?case by simp
next
  case (Cons r rs)
  have "reading v (deliver v B acc tn (progress i) f (Data r))"
    using deliver_data_reading [OF Cons.prems] by simp
  from Cons.IH [OF this] deliver_data_drain [OF Cons.prems] show ?case
    by simp
qed

lemma load_on_data_rows_length:
  assumes "0 < B" and "length (rows l) < B"
  shows "length (rows (load_on_data B acc tn l r)) = Suc (length (rows l)) mod B"
  using assms
  by (auto simp: load_on_data_def push_row_def Let_def batchInsert_rows split: prod.splits option.splits
      dest: le_antisym)

lemma data_rows_length:
  assumes "0 < B"
  shows "length (rows (foldl (load_on_data B acc tn)
                         \<lparr>rows = [], trx = tbls, promise = Pending, batches = []\<rparr> seen)) =
           length seen mod B"
proof (induction seen rule: rev_induct)
  case Nil
  show ?case by simp
next
  case (snoc r seen)
  let ?l = "foldl (load_on_data B acc tn) \<lparr>rows = [], trx = tbls, promise = Pending, batches = []\<rparr> seen"
  have "length (rows ?l) < B"
    using snoc assms by simp
  from load_on_data_rows_length [OF assms this, of acc tn r] snoc show ?case
    by (simp add: mod_Suc_eq)
qed

text \<open>
  When the batch size does not divide the number of rows, every order of events comes to
  what the sequence of the listeners comes to: the \<^verbatim>\<open>'end'\<close> listener has rows left,
  awaits their insert, which is carried out after all the others, and only then calls
  \<^verbatim>\<open>resolve()\<close>.
\<close>

lemma load_stream_with_rows_left:
  fixes src :: csv_file
  assumes "0 < B" and "\<not> parse_fails src" and "length (data_rows src) mod B \<noteq> 0"
  shows "load_stream v B acc tn progress tbls src = load B acc tn tbls src"
proof -
  define l0 :: loader where "l0 = \<lparr>rows = [], trx = tbls, promise = Pending, batches = []\<rparr>"
  define f1 where "f1 = emit_rows v B acc tn progress 0 (feed_start tbls) (data_rows src)"
  define l1 where "l1 = foldl (load_on_data B acc tn) l0 (data_rows src)"
  define n where "n = length (data_rows src)"
  have start: "reading v (feed_start tbls)"
    by (simp add: reading_def feed_start_def)
  have r1: "reading v f1"
    unfolding f1_def using emit_rows_reading [OF start, of l0 B acc tn progress 0 "data_rows src" acc]
    by (simp add: feed_start_def l0_def issued_def)
  have d1: "drain acc tn (in_flight f1) (ld f1) = l1"
    unfolding f1_def l1_def using emit_rows_drain [OF start, of acc tn B progress 0 "data_rows src"]
    by (simp add: feed_start_def l0_def)
  define g where "g = carry_out v B acc tn (progress n) f1"
  have rg: "reading v g"
    unfolding g_def using carry_out_reading [OF r1] by simp
  have dg: "drain acc tn (in_flight g) (ld g) = l1"
    unfolding g_def by (simp add: carry_out_drain d1)
  have "length (rows l1) = n mod B"
    unfolding l1_def l0_def n_def using assms(1) by (rule data_rows_length)
  with assms(3) have left: "rows l1 \<noteq> []"
    by (auto simp: n_def)
  have rows_g: "rows (ld g) = rows l1"
    using drain_rows [of acc tn "in_flight g" "ld g"] dg by simp
  define f2 where "f2 = deliver v B acc tn (progress n) f1 End"
  have "f2 = (case step v B acc tn g End of None \<Rightarrow> g | Some h \<Rightarrow> h)"
    unfolding f2_def deliver_def Let_def g_def by simp
  with rg left rows_g have f2: "f2 = g\<lparr>ended := True, in_flight := in_flight g @ [(rows l1, True)]\<rparr>"
    by (simp add: step_def reading_def)
  have "ld (carry_out v B acc tn (length (in_flight f2)) f2) = drain acc tn (in_flight f2) (ld f2)"
    by (rule carry_out_all_drain) simp
  also have "\<dots> = load_on_end acc tn l1"
    using left by (simp add: f2 drain_append dg load_on_end_def Let_def)
  finally show ?thesis
    using assms(2)
    by (simp add: load_stream_def load_def Let_def f1_def [symmetric] l1_def [symmetric]
        l0_def [symmetric] n_def [symmetric] f2_def [symmetric])
qed

lemma load_stream_is_load:
  fixes src :: csv_file
  assumes "0 < B"
    and "(\<forall>i. 0 < progress i) \<or> (\<not> parse_fails src \<and> length (data_rows src) mod B \<noteq> 0)"
  shows "load_stream v B acc tn progress tbls src = load B acc tn tbls src"
  using assms load_stream_at_once load_stream_with_rows_left by blast

lemma processCSV_with_tables:
  "tables (processCSV_with v B e s filePath tn) =
     (let l = load_stream v B (accepts e) tn (inserts_done_before e filePath) (tables s)
                (files e filePath)
      in if promise l = Resolved then trx l else tables s)"
  by (simp add: processCSV_with_def transaction_result_def Let_def split: promise_state.splits)

lemma processCSV_with_statements:
  "issued_statements (processCSV_with v B e s filePath tn) =
     issued_statements s @
     map (BatchInsert tn)
       (map fst (batches (load_stream v B (accepts e) tn (inserts_done_before e filePath)
                            (tables s) (files e filePath))))"
  by (simp add: processCSV_with_def Let_def case_prod_unfold comp_def)

text \<open>
  So in every order of events, and in both versions, a file of \<open>n\<close> data rows loaded
  with batch size \<open>B\<close> is handed to \<^verbatim>\<open>trx.batchInsert\<close> in \<open>\<lceil>n / B\<rceil>\<close> batches that
  together are the rows of the file in order: \<open>n div B\<close> batches of \<open>B\<close> rows, then
  one of \<open>n mod B\<close> rows when \<open>B\<close> does not divide \<open>n\<close>.
\<close>

lemma processCSV_issues_batches:
  fixes e :: env and s :: store and filePath tableName :: string and batchSize :: nat
    and v :: version
  assumes "0 < batchSize" and "tables s tableName = Some t"
    and "\<not> parse_fails (files e filePath)"
  defines "n \<equiv> length (data_rows (files e filePath))"
  defines "s' \<equiv> processCSV_with v batchSize e s filePath tableName"
  shows "\<exists>bs. issued_statements s' = issued_statements s @ map (BatchInsert tableName) bs \<and>
              concat bs = data_rows (files e filePath) \<and>
              length bs = (n + batchSize - 1) div batchSize \<and>
              map length bs =
                replicate (n div batchSize) batchSize @
                (if n mod batchSize = 0 then [] else [n mod batchSize])"
proof -
  define l where "l = load batchSize (accepts e) tableName (tables s) (files e filePath)"
  define bs where "bs = map fst (batches l)"
  have "map fst (batches (load_stream v batchSize (accepts e) tableName
                            (inserts_done_before e filePath) (tables s) (files e filePath))) = bs"
    unfolding bs_def l_def using assms(3) by (rule load_stream_issues)
  then have stmts: "issued_statements s' = issued_statements s @ map (BatchInsert tableName) bs"
    by (simp add: s'_def processCSV_with_statements)
  have all: "concat bs = data_rows (files e filePath)"
    unfolding bs_def l_def using assms(1,2,3) by (rule load_batches_concat)
  have "map (\<lambda>p. length (fst p)) (batches l) =
      replicate (length (data_rows (files e filePath)) div batchSize) batchSize @
      (if length (data_rows (files e filePath)) mod batchSize = 0 then []
       else [length (data_rows (files e filePath)) mod batchSize])"
    unfolding l_def using assms(1,2,3) by (rule load_batch_sizes)
  then have sizes: "map length bs =
      replicate (n div batchSize) batchSize @ (if n mod batchSize = 0 then [] else [n mod batchSize])"
    by (simp add: bs_def n_def comp_def)
  have "length bs = length (map length bs)"
    by simp
  also have "\<dots> = n div batchSize + (if n mod batchSize = 0 then 0 else 1)"
    unfolding sizes by simp
  also have "\<dots> = (n + batchSize - 1) div batchSize"
    using assms(1) by (rule ceiling_div)
  finally have count: "length bs = (n + batchSize - 1) div batchSize" .
  from stmts all count sizes show ?thesis
    by blast
qed

lemma processCSV_issues_batches_example:
  "(0::nat) < 10 \<and>
   tables (sample_store 0) ''customers'' = Some (sample_table 0) \<and>
   \<not> parse_fails (files (sample_env 25 accept_all) customers_csv) \<and>
   (\<exists>bs. issued_statements
           (processCSV (sample_env 25 accept_all) (sample_store 0) customers_csv ''customers'') =
         map (BatchInsert ''customers'') bs \<and>
         length bs = 3 \<and> map length bs = [10, 10, 5])"
proof -
  let ?e = "sample_env 25 accept_all"
  have size: "(0::nat) < 10"
    by simp
  have ok: "\<not> parse_fails (files ?e customers_csv)"
    by (simp add: sample_env_file sample_file_rows)
  have two: "replicate 2 (10::nat) = [10, 10]"
    by (simp add: numeral_2_eq_2)
  have start: "issued_statements (sample_store 0) = []"
    by (simp add: sample_store_def)
  from processCSV_issues_batches [where batchSize = 10 and s = "sample_store 0"
      and tableName = "''customers''" and t = "sample_table 0" and e = ?e
      and filePath = customers_csv and v = table_check_version,
      OF size sample_store_customers ok]
  have "\<exists>bs. issued_statements
            (processCSV_with table_check_version 10 ?e (sample_store 0) customers_csv ''customers'') =
            map (BatchInsert ''customers'') bs \<and>
          length bs = 3 \<and> map length bs = [10, 10, 5]"
    by (auto simp: start two sample_env_file sample_file_rows)
  with size sample_store_customers ok show ?thesis
    unfolding processCSV_def by blast
qed

lemma processCSV_with_effect:
  fixes e :: env and s :: store and filePath tableName :: string and batchSize :: nat
  assumes "0 < batchSize" and "tables s tableName = Some t"
    and "(\<forall>i. 0 < inserts_done_before e filePath i) \<or>
         (\<not> parse_fails (files e filePath) \<and>
          length (data_rows (files e filePath)) mod batchSize \<noteq> 0)"
  defines "src \<equiv> files e filePath"
  defines "l \<equiv> load batchSize (accepts e) tableName (tables s) src"
  shows "tables (processCSV_with v batchSize e s filePath tableName) =
           (if \<not> parse_fails src \<and> (\<forall>p \<in> set (batches l). snd p)
            then (tables s)(tableName \<mapsto> t\<lparr>contents := contents t @ data_rows src\<rparr>)
            else tables s)"
proof -
  have out: "(promise l = Resolved \<longleftrightarrow> \<not> parse_fails src \<and> (\<forall>p \<in> set (batches l). snd p)) \<and>
      (promise l = Resolved \<longrightarrow>
         trx l = (tables s)(tableName \<mapsto> t\<lparr>contents := contents t @ data_rows src\<rparr>))"
    unfolding l_def using assms(1,2) by (rule load_outcome)
  have "tables (processCSV_with v batchSize e s filePath tableName) =
      (if promise l = Resolved then trx l else tables s)"
    by (simp add: processCSV_with_tables load_stream_is_load [OF assms(1,3)] l_def src_def)
  with out show ?thesis
    by auto
qed

lemma refused_second_batch:
  "map snd (batches (load 10 (accept_up_to 14) ''customers'' (tables (sample_store 0)) (sample_file 25))) =
     [True, False, False]"
  by code_simp

text \<open>
  Whenever the batch size does not divide the number of rows, or the store carries out
  every insert before the stream emits its next event, a load into an existing table is
  all or nothing, in both versions. When the stream ends and the store accepts every
  batch, the transaction commits and the table gains exactly the rows of the file; when
  any batch insert is refused, or the parser fails, the promise of the transaction body
  is rejected, the transaction is rolled back and the table is as it was before the run.
  No other row count is possible. The example is a file of 25 rows read before any
  insert is carried out, with a store that refuses the second batch.
\<close>

lemma processCSV_all_or_nothing:
  fixes e :: env and s :: store and filePath tableName :: string and batchSize :: nat
    and v :: version
  assumes "0 < batchSize" and "tables s tableName = Some t"
    and "(\<forall>i. 0 < inserts_done_before e filePath i) \<or>
         (\<not> parse_fails (files e filePath) \<and>
          length (data_rows (files e filePath)) mod batchSize \<noteq> 0)"
  defines "src \<equiv> files e filePath"
  defines "l \<equiv> load batchSize (accepts e) tableName (tables s) src"
  defines "s' \<equiv> processCSV_with v batchSize e s filePath tableName"
  shows "tables s' =
           (if \<not> parse_fails src \<and> (\<forall>p \<in> set (batches l). snd p)
            then (tables s)(tableName \<mapsto> t\<lparr>contents := contents t @ data_rows src\<rparr>)
            else tables s) \<and>
         countRowsInTable s' tableName =
           Fulfilled (if \<not> parse_fails src \<and> (\<forall>p \<in> set (batches l). snd p)
                      then length (contents t) + length (data_rows src)
                      else length (contents t))"
proof -
  have "tables s' =
      (if \<not> parse_fails src \<and> (\<forall>p \<in> set (batches l). snd p)
       then (tables s)(tableName \<mapsto> t\<lparr>contents := contents t @ data_rows src\<rparr>)
       else tables s)"
    unfolding s'_def l_def src_def using assms(1,2,3) by (rule processCSV_with_effect)
  then show ?thesis
    using assms(2) by (simp add: countRowsInTable_def)
qed

lemma processCSV_all_or_nothing_example:
  "(0::nat) < 10 \<and>
   tables (sample_store 0) ''customers'' = Some (sample_table 0) \<and>
   \<not> parse_fails (files (sample_env 25 (accept_up_to 14)) customers_csv) \<and>
   length (data_rows (files (sample_env 25 (accept_up_to 14)) customers_csv)) mod 10 \<noteq> 0 \<and>
   tables (processCSV (sample_env 25 (accept_up_to 14)) (sample_store 0) customers_csv ''customers'') =
     tables (sample_store 0) \<and>
   countRowsInTable
     (processCSV (sample_env 25 (accept_up_to 14)) (sample_store 0) customers_csv ''customers'')
     ''customers'' = Fulfilled 0"
proof -
  let ?e = "sample_env 25 (accept_up_to 14)"
  let ?l = "load 10 (accept_up_to 14) ''customers'' (tables (sample_store 0)) (sample_file 25)"
  have size: "(0::nat) < 10"
    by simp
  have ok: "\<not> parse_fails (files ?e customers_csv)"
    by (simp add: sample_env_file sample_file_rows)
  have left: "length (data_rows (files ?e customers_csv)) mod 10 \<noteq> 0"
    by (simp add: sample_env_file sample_file_rows)
  have surroundings: "accepts ?e = accept_up_to 14" "files ?e customers_csv = sample_file 25"
    by (simp_all add: sample_env_def)
  have "False \<in> snd ` set (batches ?l)"
    using refused_second_batch by (metis list.set_intros(1,2) set_map)
  then have refused: "\<not> (\<forall>p \<in> set (batches ?l). snd p)"
    by auto
  from ok left have how:
    "(\<forall>i. 0 < inserts_done_before ?e customers_csv i) \<or>
     (\<not> parse_fails (files ?e customers_csv) \<and>
      length (data_rows (files ?e customers_csv)) mod 10 \<noteq> 0)"
    by blast
  note inst = processCSV_all_or_nothing [where batchSize = 10 and s = "sample_store 0"
      and tableName = "''customers''" and t = "sample_table 0" and e = ?e
      and filePath = customers_csv and v = table_check_version,
      OF size sample_store_customers how, unfolded surroundings]
  from inst refused have
    "tables (processCSV_with table_check_version 10 ?e (sample_store 0) customers_csv ''customers'') =
       tables (sample_store 0)"
    and "countRowsInTable
           (processCSV_with table_check_version 10 ?e (sample_store 0) customers_csv ''customers'')
           ''customers'' = Fulfilled 0"
    by (simp_all add: sample_table_rows)
  with size sample_store_customers ok left show ?thesis
    unfolding processCSV_def by blast
qed

text \<open>
  Under the same condition, when the store accepts every batch, the table has gained the
  \<open>n\<close> rows of the file. The example is batch size 10 on 25 rows, read before any
  insert is carried out: 25 rows in the table.
\<close>

lemma processCSV_commits_all:
  fixes e :: env and s :: store and filePath tableName :: string and batchSize :: nat
    and v :: version
  assumes "0 < batchSize" and "tables s tableName = Some t"
    and "\<not> parse_fails (files e filePath)"
    and "(\<forall>i. 0 < inserts_done_before e filePath i) \<or>
         length (data_rows (files e filePath)) mod batchSize \<noteq> 0"
    and "\<forall>held batch. accepts e tableName held batch"
  shows "countRowsInTable (processCSV_with v batchSize e s filePath tableName) tableName =
           Fulfilled (length (contents t) + length (data_rows (files e filePath)))"
proof -
  define l where "l = load batchSize (accepts e) tableName (tables s) (files e filePath)"
  have how: "(\<forall>i. 0 < inserts_done_before e filePath i) \<or>
      (\<not> parse_fails (files e filePath) \<and> length (data_rows (files e filePath)) mod batchSize \<noteq> 0)"
    using assms(3,4) by blast
  have ls: "load_stream v batchSize (accepts e) tableName (inserts_done_before e filePath)
              (tables s) (files e filePath) = l"
    unfolding l_def using assms(1) how by (rule load_stream_is_load)
  have res: "promise l = Resolved"
    unfolding l_def using assms(1,2,5,3) by (rule accepting_load)
  have "(promise l = Resolved \<longleftrightarrow>
           \<not> parse_fails (files e filePath) \<and> (\<forall>p \<in> set (batches l). snd p)) \<and>
        (promise l = Resolved \<longrightarrow>
           trx l = (tables s)(tableName \<mapsto>
                     t\<lparr>contents := contents t @ data_rows (files e filePath)\<rparr>))"
    unfolding l_def using assms(1,2) by (rule load_outcome)
  then have "trx l = (tables s)(tableName \<mapsto> t\<lparr>contents := contents t @ data_rows (files e filePath)\<rparr>)"
    using res by simp
  then show ?thesis
    using res by (simp add: processCSV_with_tables ls countRowsInTable_def)
qed

lemma processCSV_commits_all_example:
  "(0::nat) < 10 \<and>
   tables (sample_store 0) ''customers'' = Some (sample_table 0) \<and>
   \<not> parse_fails (files (sample_env 25 accept_all) customers_csv) \<and>
   length (data_rows (files (sample_env 25 accept_all) customers_csv)) mod 10 \<noteq> 0 \<and>
   (\<forall>held batch. accepts (sample_env 25 accept_all) ''customers'' held batch) \<and>
   countRowsInTable
     (processCSV (sample_env 25 accept_all) (sample_store 0) customers_csv ''customers'')
     ''customers'' = Fulfilled 25"
proof -
  let ?e = "sample_env 25 accept_all"
  have size: "(0::nat) < 10"
    by simp
  have ok: "\<not> parse_fails (files ?e customers_csv)"
    by (simp add: sample_env_file sample_file_rows)
  have left: "length (data_rows (files ?e customers_csv)) mod 10 \<noteq> 0"
    by (simp add: sample_env_file sample_file_rows)
  then have how: "(\<forall>i. 0 < inserts_done_before ?e customers_csv i) \<or>
      length (data_rows (files ?e customers_csv)) mod 10 \<noteq> 0"
    by blast
  have acc: "\<forall>held batch. accepts ?e ''customers'' held batch"
    by (simp add: sample_env_def accept_all_def)
  from processCSV_commits_all [where batchSize = 10 and s = "sample_store 0"
      and tableName = "''customers''" and t = "sample_table 0" and e = ?e
      and filePath = customers_csv and v = table_check_version,
      OF size sample_store_customers ok how acc]
  have "countRowsInTable
          (processCSV_with table_check_version 10 ?e (sample_store 0) customers_csv ''customers'')
          ''customers'' = Fulfilled 25"
    by (simp add: sample_env_file sample_file_rows sample_table_rows)
  with size sample_store_customers ok left acc show ?thesis
    unfolding processCSV_def by blast
qed

text \<open>
  The store is not bound to that order, and the \<^verbatim>\<open>'end'\<close> listener of neither version
  waits for it: it awaits the one insert it issues itself, for the rows left over, and
  then calls \<^verbatim>\<open>resolve()\<close>, whatever the \<^verbatim>\<open>'data'\<close> listener still has in flight. When
  the stream ends with nothing left over, \<^verbatim>\<open>resolve()\<close> is called at once.
\<close>

lemma end_resolves_with_inserts_in_flight:
  assumes "\<not> ended f" and "rows (ld f) = []" and "promise (ld f) = Pending"
  shows "\<exists>f'. step v B acc tn f End = Some f' \<and> promise (ld f') = Resolved \<and>
              in_flight f' = in_flight f"
  using assms by (simp add: step_def resolve_def)

lemma insert_after_the_transaction:
  assumes "promise l \<noteq> Pending"
  shows "trx (batchInsert acc tn batch l) = trx l \<and> promise (batchInsert acc tn batch l) = promise l \<and>
         batches (batchInsert acc tn batch l) = batches l @ [(batch, False)]"
  using assms by (simp add: batchInsert_def)

lemma drain_after_the_transaction:
  "promise l \<noteq> Pending \<Longrightarrow> \<forall>p \<in> set (batches l). \<not> snd p \<Longrightarrow>
   trx (drain acc tn q l) = trx l \<and> promise (drain acc tn q l) = promise l \<and>
   (\<forall>p \<in> set (batches (drain acc tn q l)). \<not> snd p)"
proof (induction q arbitrary: l)
  case Nil
  then show ?case by simp
next
  case (Cons p q)
  obtain batch of_end where p: "p = (batch, of_end)"
    by (cases p)
  define l' where "l' = (if of_end
      then (batchInsert acc tn batch l)\<lparr>promise := resolve (promise (batchInsert acc tn batch l))\<rparr>
      else batchInsert acc tn batch l)"
  have same: "trx l' = trx l" "promise l' = promise l" "\<forall>p \<in> set (batches l'). \<not> snd p"
    using Cons.prems by (cases "promise l"; simp add: l'_def batchInsert_def resolve_def)+
  have "drain acc tn (p # q) l = drain acc tn q l'"
    by (simp add: p l'_def Let_def)
  with Cons.IH [of l'] same Cons.prems show ?case
    by simp
qed

lemma deliver_data_unattended:
  fixes B :: nat and acc :: "string \<Rightarrow> row list \<Rightarrow> row list \<Rightarrow> bool"
    and tn :: string and f :: feed and r :: row
  assumes "\<not> paused f" and "\<not> ended f" and "trx (ld f) = tbls" and "promise (ld f) = Pending"
    and "batches (ld f) = []"
  defines "f' \<equiv> deliver table_check_version B acc tn 0 f (Data r)"
  shows "\<not> paused f' \<and> \<not> ended f' \<and> trx (ld f') = tbls \<and> promise (ld f') = Pending \<and>
         batches (ld f') = []"
  using assms(1-5) unfolding f'_def
  by (auto simp: deliver_def step_def pauses_def Let_def split: prod.splits option.splits)

lemma emit_rows_unattended:
  assumes "\<forall>i. progress i = 0"
  shows "\<not> paused f \<Longrightarrow> \<not> ended f \<Longrightarrow> trx (ld f) = tbls \<Longrightarrow> promise (ld f) = Pending \<Longrightarrow>
         batches (ld f) = [] \<Longrightarrow>
         \<not> paused (emit_rows table_check_version B acc tn progress i f rs) \<and>
         \<not> ended (emit_rows table_check_version B acc tn progress i f rs) \<and>
         trx (ld (emit_rows table_check_version B acc tn progress i f rs)) = tbls \<and>
         promise (ld (emit_rows table_check_version B acc tn progress i f rs)) = Pending \<and>
         batches (ld (emit_rows table_check_version B acc tn progress i f rs)) = []"
proof (induction rs arbitrary: i f)
  case Nil
  then show ?case by simp
next
  case (Cons r rs)
  have zero: "progress i = 0"
    using assms by simp
  from deliver_data_unattended [OF Cons.prems, of B acc tn r]
  have "\<not> paused (deliver table_check_version B acc tn 0 f (Data r))"
    "\<not> ended (deliver table_check_version B acc tn 0 f (Data r))"
    "trx (ld (deliver table_check_version B acc tn 0 f (Data r))) = tbls"
    "promise (ld (deliver table_check_version B acc tn 0 f (Data r))) = Pending"
    "batches (ld (deliver table_check_version B acc tn 0 f (Data r))) = []"
    by simp_all
  from Cons.IH [OF this] show ?case
    by (simp add: zero)
qed

text \<open>
  In the version with the table check, a file whose number of rows is a multiple of the
  batch size and that is read to its end before the first insert is carried out leaves
  the tables as they were, and the transaction commits all the same.
\<close>

lemma table_check_version_commits_nothing:
  fixes src :: csv_file and B :: nat and acc :: "string \<Rightarrow> row list \<Rightarrow> row list \<Rightarrow> bool"
    and tn :: string and tbls :: "string \<rightharpoonup> table" and progress :: "nat \<Rightarrow> nat"
  assumes "0 < B" and "\<not> parse_fails src" and "length (data_rows src) mod B = 0"
    and "\<forall>i. progress i = 0"
  defines "l \<equiv> load_stream table_check_version B acc tn progress tbls src"
  shows "promise l = Resolved \<and> transaction_result tbls l = tbls \<and>
         (\<forall>p \<in> set (batches l). \<not> snd p)"
proof -
  let ?v = table_check_version
  define l0 :: loader where "l0 = \<lparr>rows = [], trx = tbls, promise = Pending, batches = []\<rparr>"
  define f1 where "f1 = emit_rows ?v B acc tn progress 0 (feed_start tbls) (data_rows src)"
  define l1 where "l1 = foldl (load_on_data B acc tn) l0 (data_rows src)"
  define n where "n = length (data_rows src)"
  have start: "reading ?v (feed_start tbls)"
    by (simp add: reading_def feed_start_def)
  have u1: "\<not> paused f1" "\<not> ended f1" "trx (ld f1) = tbls" "promise (ld f1) = Pending"
    "batches (ld f1) = []"
    unfolding f1_def
    using emit_rows_unattended [OF assms(4), of "feed_start tbls" tbls B acc tn 0 "data_rows src"]
    by (simp_all add: feed_start_def)
  have d1: "drain acc tn (in_flight f1) (ld f1) = l1"
    unfolding f1_def l1_def using emit_rows_drain [OF start, of acc tn B progress 0 "data_rows src"]
    by (simp add: feed_start_def l0_def)
  have "length (rows l1) = n mod B"
    unfolding l1_def l0_def n_def using assms(1) by (rule data_rows_length)
  with assms(3) have "rows l1 = []"
    by (simp add: n_def)
  then have none_left: "rows (ld f1) = []"
    using drain_rows [of acc tn "in_flight f1" "ld f1"] d1 by simp
  define f2 where "f2 = deliver ?v B acc tn (progress n) f1 End"
  have zero: "progress n = 0"
    using assms(4) by simp
  have f2: "f2 = f1\<lparr>ended := True, ld := (ld f1)\<lparr>promise := Resolved\<rparr>\<rparr>"
    using u1 none_left by (simp add: f2_def deliver_def zero step_def resolve_def)
  have over: "promise (ld f2) \<noteq> Pending" "\<forall>p \<in> set (batches (ld f2)). \<not> snd p"
    "trx (ld f2) = tbls" "promise (ld f2) = Resolved"
    by (simp_all add: f2 u1)
  have fin: "ld (carry_out ?v B acc tn (length (in_flight f2)) f2) = drain acc tn (in_flight f2) (ld f2)"
    by (rule carry_out_all_drain) simp
  have l: "l = drain acc tn (in_flight f2) (ld f2)"
    using assms(2)
    by (simp add: l_def load_stream_def Let_def f1_def [symmetric] n_def [symmetric]
        f2_def [symmetric] fin)
  from drain_after_the_transaction [OF over(1,2), of acc tn "in_flight f2"] over l
  have "promise l = Resolved" "trx l = tbls" "\<forall>p \<in> set (batches l). \<not> snd p"
    by simp_all
  then show ?thesis
    by (simp add: transaction_result_def)
qed

lemma processCSV_commits_nothing:
  assumes "\<not> parse_fails (files e filePath)"
    and "length (data_rows (files e filePath)) mod 10 = 0"
    and "\<forall>i. inserts_done_before e filePath i = 0"
  shows "tables (processCSV e s filePath tableName) = tables s"
proof -
  have "(0::nat) < 10"
    by simp
  from table_check_version_commits_nothing [OF this assms, of "accepts e" tableName "tables s"]
  show ?thesis
    by (simp add: processCSV_def processCSV_with_def Let_def)
qed

text \<open>
  C2. \<^verbatim>\<open>processCSV\<close> puts the load of a file into one transaction and hands the failure
  of every insert to \<^verbatim>\<open>reject\<close>, so that a failed insert rolls the load back. An
  insert that fails after \<^verbatim>\<open>resolve()\<close> comes too late for that. In the version with the
  table check, take a file of 20 rows and a store that has room for 14, with the first
  insert done before the stream ends and the second one after: the transaction commits
  with the first batch, the second insert fails, and the table has gained 10 of the 20
  rows. The pause of \<^verbatim>\<open>src/challenge-1\<close> does not hold the end of the stream back: with
  180 rows, its batch size 90 and room for 100, the second batch is in flight when the
  stream ends, the transaction commits with the first batch, and the table has gained 90
  of the 180 rows. The last two lines are the same two loads as \<^verbatim>\<open>processCSV\<close> does
  them, the first insert being carried out before row 11 in the one and by the resumed
  stream in the other.
\<close>

theorem processCSV_commits_a_prefix:
  "observe (tables (sample_store 0)) ''customers''
     (run table_check_version 10 (accept_up_to 14) ''customers''
        (feed_start (tables (sample_store 0)))
        (replicate 10 (Data [(''name'', ''Ada'')]) @ [InsertDone] @
         replicate 10 (Data [(''name'', ''Ada'')]) @ [End, InsertDone])) =
     Some (Resolved, [(10, True), (10, False)], 0, Some 10) \<and>
   observe (tables (sample_store 0)) ''customers''
     (run challenge_1 90 (accept_up_to 100) ''customers''
        (feed_start (tables (sample_store 0)))
        (replicate 90 (Data [(''name'', ''Ada'')]) @ [InsertDone] @
         replicate 90 (Data [(''name'', ''Ada'')]) @ [End, InsertDone])) =
     Some (Resolved, [(90, True), (90, False)], 0, Some 90) \<and>
   countRowsInTable
     (processCSV ((sample_env 20 (accept_up_to 14))\<lparr>inserts_done_before := one_before_event 10\<rparr>)
        (sample_store 0) customers_csv ''customers'')
     ''customers'' = Fulfilled 10 \<and>
   countRowsInTable
     (processCSV_challenge_1 (sample_env 180 (accept_up_to 100)) (sample_store 0)
        customers_csv ''customers'')
     ''customers'' = Fulfilled 90"
  by code_simp

text \<open>
  C8. The batches are issued as the claim has them, but the rows of a batch that is in
  flight when the stream ends are not committed. In the version with the table check a
  file of 20 rows is read before the first insert is carried out: both batches of 10 are
  issued, the \<^verbatim>\<open>'end'\<close> listener finds \<^verbatim>\<open>rows\<close> empty and calls \<^verbatim>\<open>resolve()\<close>, the
  transaction commits with nothing in it, both inserts are refused, and the committed
  row count is 0, not 20. Under \<^verbatim>\<open>src/challenge-1\<close> a file of 180 rows gives two
  batches of 90; the pause makes the stream wait for the first insert, the stream ends
  with the second in flight, and the committed row count is 90, not 180. The last two
  lines are the same two loads as \<^verbatim>\<open>processCSV\<close> does them when no insert is carried
  out before the stream has ended, unless the paused stream waits for it.
\<close>

theorem processCSV_commits_without_last_batch:
  "observe (tables (sample_store 0)) ''customers''
     (run table_check_version 10 accept_all ''customers'' (feed_start (tables (sample_store 0)))
        (replicate 20 (Data [(''name'', ''Ada'')]) @ [End, InsertDone, InsertDone])) =
     Some (Resolved, [(10, False), (10, False)], 0, Some 0) \<and>
   observe (tables (sample_store 0)) ''customers''
     (run challenge_1 90 accept_all ''customers'' (feed_start (tables (sample_store 0)))
        (replicate 90 (Data [(''name'', ''Ada'')]) @ [InsertDone] @
         replicate 90 (Data [(''name'', ''Ada'')]) @ [End, InsertDone])) =
     Some (Resolved, [(90, True), (90, False)], 0, Some 90) \<and>
   countRowsInTable
     (processCSV (sample_env 20 accept_all) (sample_store 0) customers_csv ''customers'')
     ''customers'' = Fulfilled 0 \<and>
   countRowsInTable
     (processCSV_challenge_1 (sample_env 180 accept_all) (sample_store 0)
        customers_csv ''customers'')
     ''customers'' = Fulfilled 90"
  by code_simp

section \<open>Properties of the idempotency check\<close>

lemma count_by_one: "foldl (\<lambda>n r. Suc n) k xs = k + length xs"
  by (induction xs arbitrary: k) simp_all

lemma countRowsInCSV_length:
  "\<not> parse_fails src \<Longrightarrow> countRowsInCSV src = Fulfilled (length (data_rows src))"
  by (simp add: countRowsInCSV_def count_by_one)

lemma checkAndVerifyTables_both_exist:
  assumes "tables s ''customers'' = Some cust" and "tables s ''organizations'' = Some org"
    and "\<not> parse_fails (files e customers_csv)" and "\<not> parse_fails (files e organizations_csv)"
  shows "checkAndVerifyTables e s =
           (if length (contents cust) = length (data_rows (files e customers_csv))
            then Rejected (AssertionError ''customer count in db != customer count in csv'')
            else if length (contents org) = length (data_rows (files e organizations_csv))
            then Rejected (AssertionError ''organization count in db != organization count in csv'')
            else Fulfilled True)"
  using assms
  by (simp add: checkAndVerifyTables_def checkTableExistence_def countRowsInTable_def
      countRowsInCSV_length await_def assert_def)

text \<open>
  C1. With both tables present, \<^verbatim>\<open>checkAndVerifyTables\<close> asserts that the counts
  \<^emph>\<open>differ\<close>. On a fully loaded store (25 rows in each table, 25 in each file) the
  assertion fails and the check throws; on a partly loaded one (10 rows against 25) it
  passes, prints that the tables have the required amount of rows, and answers \<open>True\<close>,
  which makes the run stop as if the data were complete.
\<close>

theorem checkAndVerifyTables_inverted:
  "checkAndVerifyTables (sample_env 25 accept_all) (sample_store 25) =
     Rejected (AssertionError ''customer count in db != customer count in csv'') \<and>
   checkAndVerifyTables (sample_env 25 accept_all) (sample_store 10) = Fulfilled True"
  by (simp add: checkAndVerifyTables_both_exist [OF sample_store_customers sample_store_organizations]
      sample_env_file sample_file_rows sample_table_rows)

lemma checkAndVerifyTables_never_proceeds:
  assumes "tables s ''customers'' = Some cust" and "tables s ''organizations'' = Some org"
  shows "checkAndVerifyTables e s \<noteq> Fulfilled False"
  using assms
  by (simp add: checkAndVerifyTables_def checkTableExistence_def countRowsInTable_def
      countRowsInCSV_def await_def assert_def)


section \<open>Properties of the entry point\<close>

lemma processDataDump_with_both_tables:
  assumes "tables s ''customers'' = Some cust" and "tables s ''organizations'' = Some org"
  shows "snd (processDataDump e s) = s"
proof -
  have guard: "checkAndVerifyTables e s \<noteq> Fulfilled False"
    using assms by (rule checkAndVerifyTables_never_proceeds)
  have "snd (processDataDump_try e s) = s"
    using guard
    by (simp add: processDataDump_try_def split: outcome.splits bool.splits)
  then show ?thesis
    by (cases "processDataDump_try e s") (auto simp: processDataDump_def split: outcome.splits)
qed

text \<open>
  C3. A run of the version with the table check that finds both tables created and
  fully loaded (as many rows in each table as in its file) writes nothing: the store
  after the run is the store before it, so no statement was issued, neither table
  creation nor insert, and every row count is what it was. The run does not report a
  skip, though: on equal counts the check throws, and \<^verbatim>\<open>processDataDump\<close> re-throws.
\<close>

theorem processDataDump_rerun_writes_nothing:
  assumes "tables s ''customers'' = Some cust" and "tables s ''organizations'' = Some org"
    and "length (contents cust) = length (data_rows (files e customers_csv))"
    and "length (contents org) = length (data_rows (files e organizations_csv))"
  shows "snd (processDataDump e s) = s \<and>
         issued_statements (snd (processDataDump e s)) = issued_statements s \<and>
         countRowsInTable (snd (processDataDump e s)) tableName = countRowsInTable s tableName"
proof -
  have "snd (processDataDump e s) = s"
    using assms(1,2) by (rule processDataDump_with_both_tables)
  then show ?thesis
    by simp
qed

theorem processDataDump_rerun_writes_nothing_witness:
  "tables (sample_store 25) ''customers'' = Some (sample_table 25) \<and>
   tables (sample_store 25) ''organizations'' = Some (sample_table 25) \<and>
   length (contents (sample_table 25)) =
     length (data_rows (files (sample_env 25 accept_all) customers_csv)) \<and>
   length (contents (sample_table 25)) =
     length (data_rows (files (sample_env 25 accept_all) organizations_csv)) \<and>
   snd (processDataDump (sample_env 25 accept_all) (sample_store 25)) = sample_store 25 \<and>
   countRowsInTable (snd (processDataDump (sample_env 25 accept_all) (sample_store 25)))
     ''customers'' = Fulfilled 25"
proof -
  have c: "length (contents (sample_table 25)) =
      length (data_rows (files (sample_env 25 accept_all) customers_csv))"
    by (simp add: sample_env_file sample_file_rows sample_table_rows)
  have org: "length (contents (sample_table 25)) =
      length (data_rows (files (sample_env 25 accept_all) organizations_csv))"
    by (simp add: sample_env_file sample_file_rows sample_table_rows)
  have before: "countRowsInTable (sample_store 25) ''customers'' = Fulfilled 25"
    by (simp add: countRowsInTable_def sample_store_customers sample_table_rows)
  from processDataDump_rerun_writes_nothing
    [OF sample_store_customers sample_store_organizations c org, of "''customers''"]
    sample_store_customers sample_store_organizations c org before
  show ?thesis
    by simp
qed























end
